theory Spec2Isabelle
  imports Complex_Main "HOL-Library.Word"
begin

section \<open>Machine sizes and samples\<close>

text \<open>
  \<^verbatim>\<open>size_t\<close> is an unsigned 64-bit integer and \<^verbatim>\<open>ssize_t\<close> its signed counterpart.
  Sizes are natural numbers; the two conversions below write out the wrap-around at the
  places where the source subtracts sizes or converts between the two types. Sums and
  products of image dimensions stay far below \<open>2 ^ 64\<close> and are not wrapped.
\<close>

definition to_size_t :: "int \<Rightarrow> nat" where
  "to_size_t i = nat (i mod 2 ^ 64)"

definition to_ssize_t :: "int \<Rightarrow> int" where
  "to_ssize_t i = (let m = i mod 2 ^ 64 in if m < 2 ^ 63 then m else m - 2 ^ 64)"

text \<open>
  A sample is a \<^verbatim>\<open>float\<close>, an IEEE 754 binary32 number: a finite value, an infinity or
  a NaN. The finite values are the reals \<open>m * 2 ^ e\<close> with \<open>\<bar>m\<bar> < 2 ^ 24\<close> and
  \<open>- 149 \<le> e \<le> 104\<close>; \<open>Finite x\<close> for any other real \<open>x\<close> stands for no sample, and
  the arithmetic below produces none. The two zeros are one value, and so are all
  NaNs: the stages never look at a sign bit or a payload.
  An input row is the pointer \<^verbatim>\<open>GetInputRow(input_rows, c, 0)\<close>, read at a signed offset;
  the rows handed to a stage are indexed by channel.
\<close>

datatype float32 = Finite real | PosInf | NegInf | NaN

type_synonym row = "int \<Rightarrow> float32"
type_synonym RowInfo = "nat \<Rightarrow> row"
type_synonym u8 = "8 word"
type_synonym u16 = "16 word"
type_synonym u32 = "32 word"

definition GetInputRow :: "(nat \<Rightarrow> int \<Rightarrow> 'a) \<Rightarrow> nat \<Rightarrow> int \<Rightarrow> 'a" where
  "GetInputRow input_rows c = input_rows c"

section \<open>Binary32 arithmetic\<close>

text \<open>
  The result of an arithmetic operation on finite operands is the exact result rounded
  to binary32 in the default environment: to nearest with ties to even, with gradual
  underflow. \<open>f32_ulp_exp x\<close> is the exponent \<open>e\<close> of the spacing \<open>2 ^ e\<close> of the
  binary32 numbers around \<open>x\<close>: the least \<open>e \<ge> - 149\<close> with \<open>\<bar>x\<bar> < 2 ^ (e + 24)\<close>, and
  104 from \<open>2 ^ 127\<close> on. The rounded value is the nearest multiple of that spacing; a
  rounded magnitude that reaches \<open>2 ^ 128\<close> overflows to an infinity.
\<close>

definition pow2 :: "int \<Rightarrow> real" where
  "pow2 e = (if 0 \<le> e then 2 ^ nat e else 1 / 2 ^ nat (- e))"

definition round_half_even :: "real \<Rightarrow> int" where
  "round_half_even v =
     (let f = \<lfloor>v\<rfloor>; d = v - of_int f
      in if d < 1 / 2 then f else if 1 / 2 < d then f + 1 else if even f then f else f + 1)"

function ulp_search :: "real \<Rightarrow> int \<Rightarrow> int" where
  "ulp_search a e = (if e < 104 \<and> pow2 (e + 24) \<le> a then ulp_search a (e + 1) else e)"
  by pat_completeness auto
termination
  by (relation "measure (\<lambda>(a, e). nat (104 - e))") auto

declare ulp_search.simps [simp del]

definition f32_ulp_exp :: "real \<Rightarrow> int" where
  "f32_ulp_exp x = ulp_search \<bar>x\<bar> (- 149)"

definition round_f32 :: "real \<Rightarrow> float32" where
  "round_f32 x =
     (let e = f32_ulp_exp x; m = round_half_even (x / pow2 e)
      in if e = 104 \<and> 2 ^ 24 \<le> \<bar>m\<bar> then (if x < 0 then NegInf else PosInf)
         else Finite (of_int m * pow2 e))"


text \<open>
  Multiplication, division and the comparison \<^verbatim>\<open><\<close> of IEEE 754. A NaN operand gives NaN,
  and every comparison with a NaN is false; zero times an infinity and the quotient of
  two zeros or of two infinities are NaN. A zero divisor counts as positive.
\<close>

fun Mul :: "float32 \<Rightarrow> float32 \<Rightarrow> float32" where
  "Mul (Finite x) (Finite y) = round_f32 (x * y)"
| "Mul NaN b = NaN"
| "Mul a NaN = NaN"
| "Mul (Finite x) b = (if x = 0 then NaN else if (x < 0) = (b = PosInf) then NegInf else PosInf)"
| "Mul a (Finite y) = (if y = 0 then NaN else if (y < 0) = (a = PosInf) then NegInf else PosInf)"
| "Mul a b = (if a = b then PosInf else NegInf)"

fun f32_div :: "float32 \<Rightarrow> float32 \<Rightarrow> float32" where
  "f32_div (Finite x) (Finite y) =
     (if y = 0 then (if x = 0 then NaN else if x < 0 then NegInf else PosInf)
      else round_f32 (x / y))"
| "f32_div NaN b = NaN"
| "f32_div a NaN = NaN"
| "f32_div (Finite x) b = Finite 0"
| "f32_div a (Finite y) = (if (y < 0) = (a = PosInf) then NegInf else PosInf)"
| "f32_div a b = NaN"

fun f32_less :: "float32 \<Rightarrow> float32 \<Rightarrow> bool" where
  "f32_less (Finite x) (Finite y) = (x < y)"
| "f32_less NaN b = False"
| "f32_less a NaN = False"
| "f32_less a PosInf = (a \<noteq> PosInf)"
| "f32_less NegInf b = (b \<noteq> NegInf)"
| "f32_less a b = False"

section \<open>Vector primitives\<close>

text \<open>
  The Highway operations used by the stages, lane by lane. Highway is not among the
  sources. What it leaves to the compilation target is a parameter of the embedding:
  the result of \<^verbatim>\<open>Max\<close> and of \<^verbatim>\<open>Min\<close> when an operand is NaN, and the result of
  \<^verbatim>\<open>NearestInt\<close> for a NaN, an infinity or a value outside the 32-bit range. The same
  record holds the encodings of a sample as binary32 and binary16 bit patterns, which
  are not modelled either.
\<close>

record float_target =
  float_bits :: "float32 \<Rightarrow> u32"
  half_bits :: "float32 \<Rightarrow> u16"
  nan_max :: "float32 \<Rightarrow> float32 \<Rightarrow> float32"
  nan_min :: "float32 \<Rightarrow> float32 \<Rightarrow> float32"
  nearest_special :: "float32 \<Rightarrow> int"

text \<open>
  \<^verbatim>\<open>Clamp(v, lo, hi)\<close> is \<^verbatim>\<open>Min(Max(lo, v), hi)\<close>; \<^verbatim>\<open>NearestInt\<close> rounds to the nearest
  integer, ties to even, and its result is a signed 32-bit lane; \<^verbatim>\<open>BitCast\<close> to
  unsigned lanes reinterprets the two's complement bits; \<^verbatim>\<open>U8FromU32\<close> keeps the low
  byte; \<^verbatim>\<open>DemoteTo\<close> of signed 32-bit lanes to unsigned 8 or 16 bit lanes saturates.
\<close>

definition Max_f32 :: "float_target \<Rightarrow> float32 \<Rightarrow> float32 \<Rightarrow> float32" where
  "Max_f32 fe a b = (if a = NaN \<or> b = NaN then nan_max fe a b else if f32_less a b then b else a)"

definition Min_f32 :: "float_target \<Rightarrow> float32 \<Rightarrow> float32 \<Rightarrow> float32" where
  "Min_f32 fe a b = (if a = NaN \<or> b = NaN then nan_min fe a b else if f32_less b a then b else a)"

definition Clamp :: "float_target \<Rightarrow> float32 \<Rightarrow> float32 \<Rightarrow> float32 \<Rightarrow> float32" where
  "Clamp fe v lo hi = Min_f32 fe (Max_f32 fe lo v) hi"

definition to_int32 :: "int \<Rightarrow> int" where
  "to_int32 i = sint (word_of_int i :: 32 word)"

definition NearestInt :: "float_target \<Rightarrow> float32 \<Rightarrow> int" where
  "NearestInt fe v =
     (case v of
        Finite x \<Rightarrow>
          (let i = round_half_even x
           in if - (2 ^ 31) \<le> i \<and> i < 2 ^ 31 then i else to_int32 (nearest_special fe v))
      | _ \<Rightarrow> to_int32 (nearest_special fe v))"

definition BitCast_u32 :: "int \<Rightarrow> u32" where
  "BitCast_u32 i = word_of_int i"

definition U8FromU32 :: "u32 \<Rightarrow> u8" where
  "U8FromU32 w = ucast w"

definition DemoteTo_u8 :: "int \<Rightarrow> u8" where
  "DemoteTo_u8 i = word_of_int (max 0 (min 255 i))"

definition DemoteTo_u16 :: "int \<Rightarrow> u16" where
  "DemoteTo_u16 i = word_of_int (max 0 (min 65535 i))"

definition RoundUpTo :: "nat \<Rightarrow> nat \<Rightarrow> nat" where
  "RoundUpTo what align = ((what + align - 1) div align) * align"

text \<open>
  The compilation targets that \<^verbatim>\<open>StoreRGBA\<close> distinguishes, and the lane count of
  \<^verbatim>\<open>HWY_CAPPED(float, 4)\<close> on each: one lane on the scalar target, four otherwise.
\<close>

datatype hwy_target = HWY_SCALAR | HWY_NEON | HWY_OTHER

fun Lanes_capped4 :: "hwy_target \<Rightarrow> nat" where
  "Lanes_capped4 HWY_SCALAR = 1"
| "Lanes_capped4 HWY_NEON = 4"
| "Lanes_capped4 HWY_OTHER = 4"

section \<open>RawBufferSink: \<^verbatim>\<open>WriteToU8Stage\<close>\<close>

text \<open>
  The output buffer \<^verbatim>\<open>rgb_\<close> is a byte store addressed by the offset from its base
  pointer. A stage call is described by the sequence of byte writes it performs; the
  store after the call is obtained by replaying them in order. The debug-only assertion
  \<^verbatim>\<open>JXL_DASSERT(xextra == 0)\<close> and the sanitizer annotations have no effect on the
  writes and are left out.
\<close>

type_synonym byte_write = "nat \<times> u8"
type_synonym buffer = "nat \<Rightarrow> u8"

definition apply_writes :: "byte_write list \<Rightarrow> buffer \<Rightarrow> buffer" where
  "apply_writes ws buf = foldl (\<lambda>m w. m(fst w := snd w)) buf ws"

definition memcpy_bytes :: "nat \<Rightarrow> u8 list \<Rightarrow> nat \<Rightarrow> byte_write list" where
  "memcpy_bytes dst src n = map (\<lambda>j. (dst + j, src ! j)) [0..<n]"

text \<open>
  \<^verbatim>\<open>vst3_u8\<close> and \<^verbatim>\<open>vst4_u8\<close> store eight lanes of three or four byte vectors
  interleaved: lane \<open>i\<close> of vector \<open>k\<close> goes to offset \<open>m * i + k\<close>.
\<close>

definition interleave :: "u8 list list \<Rightarrow> u8 list" where
  "interleave vs = concat (map (\<lambda>i. map (\<lambda>v. v ! i) vs) [0..<8])"

definition vst_u8 :: "nat \<Rightarrow> u8 list list \<Rightarrow> byte_write list" where
  "vst_u8 dst vs = memcpy_bytes dst (interleave vs) (8 * length vs)"

definition store_lanes :: "nat \<Rightarrow> nat \<Rightarrow> nat \<Rightarrow> u8 list \<Rightarrow> nat \<Rightarrow> byte_write list" where
  "store_lanes buf m k bytes n = map (\<lambda>i. (buf + (m * i + k), bytes ! i)) [0..<n]"

fun StoreRGBA ::
  "hwy_target \<Rightarrow> u8 list \<Rightarrow> u8 list \<Rightarrow> u8 list \<Rightarrow> u8 list \<Rightarrow> bool \<Rightarrow> nat \<Rightarrow> nat \<Rightarrow> nat
     \<Rightarrow> byte_write list" where
  "StoreRGBA HWY_SCALAR r g b a alpha n extra buf =
     [(buf + 0, r ! 0), (buf + 1, g ! 0), (buf + 2, b ! 0)] @
     (if alpha then [(buf + 3, a ! 0)] else [])"
| "StoreRGBA HWY_NEON r g b a alpha n extra buf =
     (if alpha then
        (if 8 \<le> extra then vst_u8 buf [r, g, b, a]
         else memcpy_bytes buf (interleave [r, g, b, a]) (n * 4))
      else
        (if 8 \<le> extra then vst_u8 buf [r, g, b]
         else memcpy_bytes buf (interleave [r, g, b]) (n * 3)))"
| "StoreRGBA HWY_OTHER r g b a alpha n extra buf =
     (let mul = (if alpha then 4 else 3)
      in store_lanes buf mul 0 r n @ store_lanes buf mul 1 g n @ store_lanes buf mul 2 b n @
         (if alpha then store_lanes buf 4 3 a n else []))"

record WriteToU8Stage =
  stride_u8 :: nat
  height_u8 :: nat
  rgba_u8 :: bool
  has_alpha_u8 :: bool
  alpha_c_u8 :: nat

text \<open>
  One vector of converted bytes. The first \<open>Lanes\<close> lanes hold the converted samples
  \<open>x, x + 1, ...\<close> of the row. On NEON the raw register has eight byte lanes; what the
  upper four hold is not fixed by the source and is given by \<open>upper\<close>.
\<close>

definition to_u8 :: "float_target \<Rightarrow> float32 \<Rightarrow> u8" where
  "to_u8 fe v =
     U8FromU32 (BitCast_u32 (NearestInt fe (Mul (Clamp fe (Finite 0) v (Finite 1)) (Finite 255))))"

definition opaque_u8 :: "float_target \<Rightarrow> u8" where
  "opaque_u8 fe = U8FromU32 (BitCast_u32 (NearestInt fe (Finite 255)))"

definition raw_lanes :: "hwy_target \<Rightarrow> nat" where
  "raw_lanes tg = (case tg of HWY_NEON \<Rightarrow> 8 | _ \<Rightarrow> Lanes_capped4 tg)"

definition lanes_u8 ::
  "float_target \<Rightarrow> hwy_target \<Rightarrow> (nat \<Rightarrow> u8) \<Rightarrow> row option \<Rightarrow> nat \<Rightarrow> u8 list" where
  "lanes_u8 fe tg upper row_in x =
     map (\<lambda>i. if i < Lanes_capped4 tg
               then (case row_in of Some rw \<Rightarrow> to_u8 fe (rw (int (x + i))) | None \<Rightarrow> opaque_u8 fe)
               else upper i)
         [0..<raw_lanes tg]"

function U8_loop ::
  "float_target \<Rightarrow> hwy_target \<Rightarrow> (nat \<Rightarrow> nat \<Rightarrow> nat \<Rightarrow> u8) \<Rightarrow> bool \<Rightarrow> row \<Rightarrow> row \<Rightarrow> row \<Rightarrow> row option
     \<Rightarrow> nat \<Rightarrow> nat \<Rightarrow> nat \<Rightarrow> nat \<Rightarrow> byte_write list" where
  "U8_loop fe tg upper rgba row_in_r row_in_g row_in_b row_in_a base_ptr xsize x1 x =
     (if x < x1 then
        (let bytes = (if rgba then 4 else 3);
             r8 = lanes_u8 fe tg (upper x 0) (Some row_in_r) x;
             g8 = lanes_u8 fe tg (upper x 1) (Some row_in_g) x;
             b8 = lanes_u8 fe tg (upper x 2) (Some row_in_b) x;
             a8 = lanes_u8 fe tg (upper x 3) row_in_a x;
             n = xsize - x
         in (if Lanes_capped4 tg \<le> n
             then StoreRGBA tg r8 g8 b8 a8 rgba (Lanes_capped4 tg) n (base_ptr + bytes * x)
             else StoreRGBA tg r8 g8 b8 a8 rgba n n (base_ptr + bytes * x)) @
            U8_loop fe tg upper rgba row_in_r row_in_g row_in_b row_in_a base_ptr xsize x1
              (x + Lanes_capped4 tg))
      else [])"
  by pat_completeness auto
termination
  by (relation "measure (\<lambda>(fe, tg, upper, rgba, r, g, b, a, base_ptr, xsize, x1, x). x1 - x)")
     (auto, case_tac tg, auto)

declare U8_loop.simps [simp del]

definition U8_ProcessRow ::
  "float_target \<Rightarrow> hwy_target \<Rightarrow> (nat \<Rightarrow> nat \<Rightarrow> nat \<Rightarrow> u8) \<Rightarrow> WriteToU8Stage \<Rightarrow> RowInfo
     \<Rightarrow> nat \<Rightarrow> nat \<Rightarrow> nat \<Rightarrow> nat \<Rightarrow> byte_write list" where
  "U8_ProcessRow fe tg upper st input_rows xextra xsize xpos ypos =
     (if height_u8 st \<le> ypos then []
      else
        (let bytes = (if rgba_u8 st then 4 else 3);
             row_in_r = GetInputRow input_rows 0;
             row_in_g = GetInputRow input_rows 1;
             row_in_b = GetInputRow input_rows 2;
             row_in_a = (if has_alpha_u8 st then Some (GetInputRow input_rows (alpha_c_u8 st))
                         else None);
             base_ptr = ypos * stride_u8 st + bytes * to_size_t (int xpos - int xextra);
             x1 = RoundUpTo xsize (Lanes_capped4 tg)
         in U8_loop fe tg upper (rgba_u8 st) row_in_r row_in_g row_in_b row_in_a base_ptr xsize x1 0))"

datatype RenderPipelineChannelMode = kIgnored | kInOut | kInput

definition U8_GetChannelMode :: "WriteToU8Stage \<Rightarrow> nat \<Rightarrow> RenderPipelineChannelMode" where
  "U8_GetChannelMode st c =
     (if c < 3 \<or> (has_alpha_u8 st \<and> c = alpha_c_u8 st) then kInput else kIgnored)"

text \<open>
  Two notions used to state what a row call leaves in the buffer: the number of lanes a
  \<^verbatim>\<open>StoreRGBA\<close> call writes, and the byte expected for channel \<open>k\<close> of pixel \<open>p\<close>.
\<close>

definition stored_lanes :: "hwy_target \<Rightarrow> nat \<Rightarrow> nat \<Rightarrow> nat" where
  "stored_lanes tg n extra = (if tg = HWY_NEON \<and> 8 \<le> extra then 8 else n)"

definition expected_byte ::
  "float_target \<Rightarrow> row \<Rightarrow> row \<Rightarrow> row \<Rightarrow> row option \<Rightarrow> nat \<Rightarrow> nat \<Rightarrow> u8" where
  "expected_byte fe row_in_r row_in_g row_in_b row_in_a k p =
     (if k = 0 then to_u8 fe (row_in_r (int p))
      else if k = 1 then to_u8 fe (row_in_g (int p))
      else if k = 2 then to_u8 fe (row_in_b (int p))
      else (case row_in_a of Some rw \<Rightarrow> to_u8 fe (rw (int p)) | None \<Rightarrow> opaque_u8 fe))"

section \<open>PixelCallbackSink: \<^verbatim>\<open>WriteToPixelCallbackStage\<close>\<close>

text \<open>
  The orientation and sample-type enumerations are declared outside the sources; the
  constructors are the values the stage names, plus the identity orientation. The sink's
  configuration admits exactly the four sample types listed.
\<close>

datatype Orientation =
  kIdentity | kFlipHorizontal | kRotate180 | kFlipVertical
  | kTranspose | kRotate90 | kAntiTranspose | kRotate270

datatype JxlDataType = JXL_TYPE_FLOAT | JXL_TYPE_UINT8 | JXL_TYPE_UINT16 | JXL_TYPE_FLOAT16

definition kMaxPixelsPerCall :: nat where
  "kMaxPixelsPerCall = 1024"

definition ShouldFlipX :: "Orientation \<Rightarrow> bool" where
  "ShouldFlipX undo_orientation =
     (undo_orientation = kFlipHorizontal \<or> undo_orientation = kRotate180 \<or>
      undo_orientation = kRotate270 \<or> undo_orientation = kAntiTranspose)"

definition ShouldFlipY :: "Orientation \<Rightarrow> bool" where
  "ShouldFlipY undo_orientation =
     (undo_orientation = kFlipVertical \<or> undo_orientation = kRotate180 \<or>
      undo_orientation = kRotate90 \<or> undo_orientation = kAntiTranspose)"

definition ShouldTranspose :: "Orientation \<Rightarrow> bool" where
  "ShouldTranspose undo_orientation =
     (undo_orientation = kTranspose \<or> undo_orientation = kRotate90 \<or>
      undo_orientation = kRotate270 \<or> undo_orientation = kAntiTranspose)"

text \<open>
  The callback object is represented by what its \<^verbatim>\<open>Init\<close> returns for a thread count and
  a batch size: a handle, or \<open>None\<close> for the null pointer. Its \<^verbatim>\<open>run\<close> and \<^verbatim>\<open>destroy\<close>
  functions are effects and appear as recorded invocations. In the stage object,
  \<open>run_opaque_cb\<close> is the handle obtained from \<^verbatim>\<open>Init\<close>; \<open>tempf_cb\<close> and \<open>tempu_cb\<close> list the byte sizes of the
  per-thread scratch arrays.
\<close>

record PixelCallback =
  cb_Init :: "nat \<Rightarrow> nat \<Rightarrow> nat option"

record WriteToPixelCallbackStage =
  pixel_callback_cb :: PixelCallback
  run_opaque_cb :: "nat option"
  width_cb :: nat
  height_cb :: nat
  num_channels_cb :: nat
  num_color_cb :: nat
  want_alpha_cb :: bool
  has_alpha_cb :: bool
  unpremul_alpha_cb :: bool
  alpha_c_cb :: nat
  swap_endianness_cb :: bool
  flip_x_cb :: bool
  flip_y_cb :: bool
  transpose_cb :: bool
  data_type_cb :: JxlDataType
  opaque_alpha_cb :: "float32 list"
  tempf_cb :: "nat list"
  tempu_cb :: "nat list"

definition GetWriteToPixelCallbackStage ::
  "PixelCallback \<Rightarrow> nat \<Rightarrow> nat \<Rightarrow> nat \<Rightarrow> bool \<Rightarrow> bool \<Rightarrow> nat \<Rightarrow> bool \<Rightarrow> Orientation \<Rightarrow> JxlDataType
     \<Rightarrow> WriteToPixelCallbackStage" where
  "GetWriteToPixelCallbackStage pixel_callback width height num_channels has_alpha
       unpremul_alpha alpha_c swap_endianness undo_orientation data_type =
     \<lparr> pixel_callback_cb = pixel_callback,
       run_opaque_cb = None,
       width_cb = width,
       height_cb = height,
       num_channels_cb = num_channels,
       num_color_cb = (if num_channels < 3 then 1 else 3),
       want_alpha_cb = (num_channels = 2 \<or> num_channels = 4),
       has_alpha_cb = has_alpha,
       unpremul_alpha_cb = unpremul_alpha,
       alpha_c_cb = alpha_c,
       swap_endianness_cb = swap_endianness,
       flip_x_cb = ShouldFlipX undo_orientation,
       flip_y_cb = ShouldFlipY undo_orientation,
       transpose_cb = ShouldTranspose undo_orientation,
       data_type_cb = data_type,
       opaque_alpha_cb = replicate kMaxPixelsPerCall (Finite 1),
       tempf_cb = [],
       tempu_cb = [] \<rparr>"

text \<open>
  What a callback invocation receives: the pixel data behind the pointer, in the sample
  type of the output. Byte-swapped floats are bit patterns.
\<close>

datatype pixels =
  Floats "float32 list" | SwappedFloats "u32 list" | U16s "u16 list" | U8s "u8 list"

fun pixels_slice :: "nat \<Rightarrow> nat \<Rightarrow> pixels \<Rightarrow> pixels" where
  "pixels_slice j n (Floats xs) = Floats (take n (drop j xs))"
| "pixels_slice j n (SwappedFloats xs) = SwappedFloats (take n (drop j xs))"
| "pixels_slice j n (U16s xs) = U16s (take n (drop j xs))"
| "pixels_slice j n (U8s xs) = U8s (take n (drop j xs))"

fun pixels_length :: "pixels \<Rightarrow> nat" where
  "pixels_length (Floats xs) = length xs"
| "pixels_length (SwappedFloats xs) = length xs"
| "pixels_length (U16s xs) = length xs"
| "pixels_length (U8s xs) = length xs"

record run_call =
  call_thread :: nat
  call_x :: nat
  call_y :: nat
  call_num_pixels :: nat
  call_pixels :: pixels

definition JXL_BSWAP16 :: "u16 \<Rightarrow> u16" where
  "JXL_BSWAP16 w = or (push_bit 8 w) (drop_bit 8 w)"

definition JXL_BSWAP32 :: "u32 \<Rightarrow> u32" where
  "JXL_BSWAP32 w =
     or (or (push_bit 24 w) (push_bit 8 (and w 0xFF00)))
        (or (and (drop_bit 8 w) 0xFF00) (drop_bit 24 w))"

definition BSwapFloat :: "float_target \<Rightarrow> float32 \<Rightarrow> u32" where
  "BSwapFloat fe v = JXL_BSWAP32 (float_bits fe v)"

subsection \<open>Unpremultiplication\<close>

definition chunks :: "nat \<Rightarrow> 'a list \<Rightarrow> 'a list list" where
  "chunks n xs = map (\<lambda>q. take n (drop (q * n) xs)) [0..<length xs div n]"

text \<open>
  Modelled from the spec: \<^verbatim>\<open>UnpremultiplyAlpha(temp, num_color, xlen)\<close> is declared in
  \<^verbatim>\<open>lib/jxl/alpha.h\<close>, which is not among the sources. Following the specification,
  each pixel's colour channels are divided by the pixel's alpha, the divisor clamped
  away from zero by the constant \<open>kSmallAlpha\<close>; the alpha sample itself is kept. The
  clamped divisor is the larger of the constant and the alpha, as \<^verbatim>\<open>std::max\<close> computes
  it, and the division is the binary32 division. A pixel occupies \<open>num_color + 1\<close>
  consecutive samples of the buffer.
\<close>

definition std_max :: "float32 \<Rightarrow> float32 \<Rightarrow> float32" where
  "std_max a b = (if f32_less a b then b else a)"

definition unpremultiply_pixel :: "float32 \<Rightarrow> nat \<Rightarrow> float32 list \<Rightarrow> float32 list" where
  "unpremultiply_pixel kSmallAlpha num_color px =
     map (\<lambda>v. f32_div v (std_max kSmallAlpha (px ! num_color))) (take num_color px) @
     drop num_color px"

definition UnpremultiplyAlpha :: "float32 \<Rightarrow> float32 list \<Rightarrow> nat \<Rightarrow> nat \<Rightarrow> float32 list" where
  "UnpremultiplyAlpha kSmallAlpha temp num_color num_pixels =
     concat (map (unpremultiply_pixel kSmallAlpha num_color)
               (take num_pixels (chunks (num_color + 1) temp))) @
     drop (num_pixels * (num_color + 1)) temp"

subsection \<open>Horizontal flip\<close>

definition swap_at :: "nat \<Rightarrow> nat \<Rightarrow> 'a list \<Rightarrow> 'a list" where
  "swap_at i j xs = (xs[i := xs ! j])[j := xs ! i]"

text \<open>
  The flip loop of \<^verbatim>\<open>ProcessRow\<close>. The outer loop runs \<open>i = 0, num_channels, ...\<close>
  below \<open>(xlen / 2) * num_channels\<close>, that is \<open>i = p * num_channels\<close> for the pixels
  \<open>p < xlen / 2\<close>; the inner loop swaps the channels of pixel \<open>p\<close> with those of its
  mirror image.
\<close>

definition FlipX :: "nat \<Rightarrow> nat \<Rightarrow> 'a list \<Rightarrow> 'a list" where
  "FlipX num_channels xlen temp =
     (let last = (xlen - 1) * num_channels
      in foldl (\<lambda>t p. let i = p * num_channels
                      in foldl (\<lambda>t c. swap_at (i + c) (last - i + c) t) t [0..<num_channels])
           temp [0..<xlen div 2])"

definition FlipX_xstart :: "nat \<Rightarrow> nat \<Rightarrow> nat \<Rightarrow> nat" where
  "FlipX_xstart width xstart xlen = to_size_t (int width - int xstart - int xlen)"

subsection \<open>Row processing\<close>

definition ptr_add :: "row \<Rightarrow> int \<Rightarrow> row" where
  "ptr_add p k = (\<lambda>i. p (k + i))"

definition vec_data :: "float32 list \<Rightarrow> row" where
  "vec_data v = (\<lambda>i. v ! nat i)"

text \<open>
  The array \<^verbatim>\<open>line_buffers\<close> after its initialisation: the colour rows and, at index
  \<open>num_color_cb\<close>, the alpha row or the vector of ones. The remaining entries are never
  assigned, and never read when \<open>num_channels_cb \<le> num_color_cb + 1\<close>.
\<close>

definition init_line_buffers ::
  "WriteToPixelCallbackStage \<Rightarrow> RowInfo \<Rightarrow> nat \<Rightarrow> nat \<Rightarrow> row" where
  "init_line_buffers st input_rows xextra =
     (\<lambda>c. if c < num_color_cb st then ptr_add (GetInputRow input_rows c) (- int xextra)
           else if c = num_color_cb st then
             (if has_alpha_cb st
              then ptr_add (GetInputRow input_rows (alpha_c_cb st)) (- int xextra)
              else vec_data (opaque_alpha_cb st))
           else undefined)"

definition advance_line_buffers ::
  "WriteToPixelCallbackStage \<Rightarrow> (nat \<Rightarrow> row) \<Rightarrow> nat \<Rightarrow> row" where
  "advance_line_buffers st line_buffers =
     (\<lambda>c. if c < num_color_cb st \<or> (has_alpha_cb st \<and> c = num_color_cb st)
           then ptr_add (line_buffers c) (int kMaxPixelsPerCall)
           else line_buffers c)"

function gather_loop ::
  "(nat \<Rightarrow> row) \<Rightarrow> nat \<Rightarrow> int \<Rightarrow> int \<Rightarrow> nat \<Rightarrow> float32 list \<Rightarrow> nat \<times> float32 list" where
  "gather_loop line_buffers num_channels x0 limit ix temp =
     (if ix < kMaxPixelsPerCall \<and> int ix + x0 < limit
      then gather_loop line_buffers num_channels x0 limit (ix + 1)
             (temp @ map (\<lambda>c. line_buffers c (int ix)) [0..<num_channels])
      else (ix, temp))"
  by pat_completeness auto
termination
  by (relation "measure (\<lambda>(lb, nc, x0, limit, ix, temp). kMaxPixelsPerCall - ix)") auto

declare gather_loop.simps [simp del]

definition WriteToCallback ::
  "WriteToPixelCallbackStage \<Rightarrow> nat \<Rightarrow> nat \<Rightarrow> nat \<Rightarrow> nat \<Rightarrow> pixels \<Rightarrow> run_call list" where
  "WriteToCallback st thread_id ypos xstart xlen output =
     (if transpose_cb st then
        map (\<lambda>i. \<lparr> call_thread = thread_id, call_x = ypos, call_y = xstart + i,
                   call_num_pixels = 1,
                   call_pixels = pixels_slice (i * num_channels_cb st) (num_channels_cb st) output \<rparr>)
          [0..<xlen]
      else
        [\<lparr> call_thread = thread_id, call_x = xstart, call_y = ypos, call_num_pixels = xlen,
           call_pixels = pixels_slice 0 (xlen * num_channels_cb st) output \<rparr>])"

text \<open>
  The conversion of the gathered samples to the output type. The source converts whole
  vectors, so lanes beyond the last sample are computed as well; they stay in the
  scratch array and are not part of what is delivered.
\<close>

definition convert_pixels ::
  "float_target \<Rightarrow> JxlDataType \<Rightarrow> bool \<Rightarrow> float32 list \<Rightarrow> pixels option" where
  "convert_pixels fe data_type swap_endianness temp =
     (if data_type = JXL_TYPE_FLOAT then
        Some (if swap_endianness then SwappedFloats (map (BSwapFloat fe) temp) else Floats temp)
      else if data_type = JXL_TYPE_UINT16 \<or> data_type = JXL_TYPE_FLOAT16 then
        (let tempu =
               (if data_type = JXL_TYPE_UINT16
                then map (\<lambda>v. DemoteTo_u16
                               (NearestInt fe
                                  (Mul (Clamp fe (Finite 0) v (Finite 1)) (Finite 65535))))
                       temp
                else map (half_bits fe) temp)
         in Some (U16s (if swap_endianness then map JXL_BSWAP16 tempu else tempu)))
      else if data_type = JXL_TYPE_UINT8 then
        Some (U8s (map (\<lambda>v. DemoteTo_u8
                             (NearestInt fe (Mul (Clamp fe (Finite 0) v (Finite 1)) (Finite 255))))
                     temp))
      else None)"

text \<open>
  The body of the batch loop: gather, unpremultiply, flip, convert, deliver. The scratch
  array of the thread is written from its start in every batch, so it is represented by
  the list of samples gathered. The debug-only assertion on \<open>run_opaque_cb\<close> is left
  out.
\<close>

definition process_batch ::
  "float_target \<Rightarrow> float32 \<Rightarrow> WriteToPixelCallbackStage \<Rightarrow> nat \<Rightarrow> nat \<Rightarrow> nat \<Rightarrow> int
     \<Rightarrow> (nat \<Rightarrow> row) \<Rightarrow> int \<Rightarrow> run_call list" where
  "process_batch fe kSmallAlpha st thread_id xpos ypos limit line_buffers x0 =
     (let (ix, temp) = gather_loop line_buffers (num_channels_cb st) x0 limit 0 [];
          xstart = to_size_t (int xpos + x0);
          xlen = ix;
          temp = (if has_alpha_cb st \<and> want_alpha_cb st \<and> unpremul_alpha_cb st
                  then UnpremultiplyAlpha kSmallAlpha temp (num_color_cb st) xlen else temp);
          temp = (if flip_x_cb st then FlipX (num_channels_cb st) xlen temp else temp);
          xstart = (if flip_x_cb st then FlipX_xstart (width_cb st) xstart xlen else xstart)
      in case convert_pixels fe (data_type_cb st) (swap_endianness_cb st) temp of
           Some output \<Rightarrow> WriteToCallback st thread_id ypos xstart xlen output
         | None \<Rightarrow> [])"

function batch_loop ::
  "float_target \<Rightarrow> float32 \<Rightarrow> WriteToPixelCallbackStage \<Rightarrow> nat \<Rightarrow> nat \<Rightarrow> nat \<Rightarrow> int
     \<Rightarrow> (nat \<Rightarrow> row) \<Rightarrow> int \<Rightarrow> run_call list" where
  "batch_loop fe kSmallAlpha st thread_id xpos ypos limit line_buffers x0 =
     (if x0 < limit then
        process_batch fe kSmallAlpha st thread_id xpos ypos limit line_buffers x0 @
        batch_loop fe kSmallAlpha st thread_id xpos ypos limit
          (advance_line_buffers st line_buffers) (x0 + int kMaxPixelsPerCall)
      else [])"
  by pat_completeness auto
termination
  by (relation "measure (\<lambda>(fe, k, st, t, xpos, ypos, limit, lb, x0). nat (limit - x0))")
     (auto simp: kMaxPixelsPerCall_def)

declare batch_loop.simps [simp del]

definition CB_ProcessRow ::
  "float_target \<Rightarrow> float32 \<Rightarrow> WriteToPixelCallbackStage \<Rightarrow> RowInfo
     \<Rightarrow> nat \<Rightarrow> nat \<Rightarrow> nat \<Rightarrow> nat \<Rightarrow> nat \<Rightarrow> run_call list" where
  "CB_ProcessRow fe kSmallAlpha st input_rows xextra xsize xpos ypos thread_id =
     (if height_cb st \<le> ypos then []
      else
        (let line_buffers = init_line_buffers st input_rows xextra;
             ypos = (if flip_y_cb st then to_size_t (int (height_cb st) - 1 - int ypos) else ypos);
             limit = to_ssize_t (int (min (xextra + xsize)
                                        (to_size_t (int (width_cb st) - int xpos))))
         in batch_loop fe kSmallAlpha st thread_id xpos ypos limit line_buffers
              (to_ssize_t (- int xextra))))"

definition CB_GetChannelMode ::
  "WriteToPixelCallbackStage \<Rightarrow> nat \<Rightarrow> RenderPipelineChannelMode" where
  "CB_GetChannelMode st c =
     (if c < num_color_cb st \<or> (has_alpha_cb st \<and> c = alpha_c_cb st) then kInput else kIgnored)"

definition CB_PrepareForThreads ::
  "nat \<Rightarrow> WriteToPixelCallbackStage \<Rightarrow> bool \<times> WriteToPixelCallbackStage" where
  "CB_PrepareForThreads num_threads st =
     (let st = st\<lparr>run_opaque_cb := cb_Init (pixel_callback_cb st) num_threads kMaxPixelsPerCall\<rparr>
      in if run_opaque_cb st = None then (False, st)
         else
           (let st = st\<lparr>tempf_cb :=
                         replicate num_threads (4 * kMaxPixelsPerCall * num_channels_cb st)\<rparr>;
                st = (if data_type_cb st \<noteq> JXL_TYPE_FLOAT
                      then st\<lparr>tempu_cb :=
                                replicate num_threads (2 * kMaxPixelsPerCall * num_channels_cb st)\<rparr>
                      else st)
            in (True, st)))"

datatype sink_event = InitCalled nat nat | RunCalled run_call | DestroyCalled nat

definition CB_destructor :: "WriteToPixelCallbackStage \<Rightarrow> sink_event list" where
  "CB_destructor st = (case run_opaque_cb st of Some h \<Rightarrow> [DestroyCalled h] | None \<Rightarrow> [])"

text \<open>
  Modelled from the spec: the pipeline driver that owns the stage and calls its hooks is
  not among the sources. Following the specification, \<^verbatim>\<open>PrepareForThreads\<close> is invoked
  once, before any row processing; its failure is fatal for the whole decode and is
  reported to the caller as an error, without a retry and without processing any row;
  otherwise every requested row is processed; the stage is torn down on every path.
\<close>

record row_request =
  req_input_rows :: RowInfo
  req_xextra :: nat
  req_xsize :: nat
  req_xpos :: nat
  req_ypos :: nat
  req_thread_id :: nat

datatype decode_status = DecodeSuccess | DecodeError

definition run_callback_sink ::
  "float_target \<Rightarrow> float32 \<Rightarrow> nat \<Rightarrow> WriteToPixelCallbackStage \<Rightarrow> row_request list
     \<Rightarrow> decode_status \<times> sink_event list" where
  "run_callback_sink fe kSmallAlpha num_threads st reqs =
     (let (ok, st') = CB_PrepareForThreads num_threads st;
          setup = [InitCalled num_threads kMaxPixelsPerCall]
      in if \<not> ok then (DecodeError, setup @ CB_destructor st')
         else
           (DecodeSuccess,
            setup @
            map RunCalled
              (concat (map (\<lambda>r. CB_ProcessRow fe kSmallAlpha st' (req_input_rows r) (req_xextra r)
                                   (req_xsize r) (req_xpos r) (req_ypos r) (req_thread_id r))
                         reqs)) @
            CB_destructor st'))"

section \<open>FrameBufferSink and PlanarBufferSink\<close>

text \<open>
  \<^verbatim>\<open>WriteToImageBundleStage\<close> and \<^verbatim>\<open>WriteToImage3FStage\<close> copy rows with \<^verbatim>\<open>memcpy\<close>. The
  copy does not look at the samples, so the sample type is left open. A plane row is the
  row pointer, read and written at a signed column offset.
\<close>

record 'a ImageF =
  plane_xsize :: nat
  plane_ysize :: nat
  plane_Row :: "nat \<Rightarrow> int \<Rightarrow> 'a"

record 'a Image3F =
  image_xsize :: nat
  image_ysize :: nat
  PlaneRow :: "nat \<Rightarrow> nat \<Rightarrow> int \<Rightarrow> 'a"

record 'a ImageBundle =
  color :: "'a Image3F"
  extra_channels :: "'a ImageF list"

datatype abort = JXL_ASSERT_failed

definition memcpy_row ::
  "(int \<Rightarrow> 'a) \<Rightarrow> int \<Rightarrow> (int \<Rightarrow> 'a) \<Rightarrow> int \<Rightarrow> nat \<Rightarrow> int \<Rightarrow> 'a" where
  "memcpy_row dst d src s n = (\<lambda>i. if d \<le> i \<and> i < d + int n then src (s + (i - d)) else dst i)"

definition copy_plane_row ::
  "'a Image3F \<Rightarrow> (nat \<Rightarrow> int \<Rightarrow> 'a) \<Rightarrow> nat \<Rightarrow> nat \<Rightarrow> nat \<Rightarrow> nat \<Rightarrow> nat \<Rightarrow> 'a Image3F" where
  "copy_plane_row img input_rows xextra xsize xpos ypos c =
     img\<lparr>PlaneRow := (PlaneRow img)
       (c := (PlaneRow img c)
          (ypos := memcpy_row (PlaneRow img c ypos) (int xpos - int xextra)
                     (GetInputRow input_rows c) (- int xextra) (xsize + 2 * xextra)))\<rparr>"

definition I3F_ProcessRow ::
  "'a Image3F \<Rightarrow> (nat \<Rightarrow> int \<Rightarrow> 'a) \<Rightarrow> nat \<Rightarrow> nat \<Rightarrow> nat \<Rightarrow> nat \<Rightarrow> 'a Image3F" where
  "I3F_ProcessRow img input_rows xextra xsize xpos ypos =
     foldl (\<lambda>im c. copy_plane_row im input_rows xextra xsize xpos ypos c) img [0..<3]"

definition copy_extra_row ::
  "'a ImageF \<Rightarrow> (nat \<Rightarrow> int \<Rightarrow> 'a) \<Rightarrow> nat \<Rightarrow> nat \<Rightarrow> nat \<Rightarrow> nat \<Rightarrow> nat \<Rightarrow> 'a ImageF" where
  "copy_extra_row plane input_rows xextra xsize xpos ypos ec =
     plane\<lparr>plane_Row := (plane_Row plane)
       (ypos := memcpy_row (plane_Row plane ypos) (int xpos - int xextra)
                  (GetInputRow input_rows (3 + ec)) (- int xextra) (xsize + 2 * xextra))\<rparr>"

fun IB_extra_loop ::
  "(nat \<Rightarrow> int \<Rightarrow> 'a) \<Rightarrow> nat \<Rightarrow> nat \<Rightarrow> nat \<Rightarrow> nat \<Rightarrow> nat list \<Rightarrow> 'a ImageBundle
     \<Rightarrow> abort + 'a ImageBundle" where
  "IB_extra_loop input_rows xextra xsize xpos ypos [] ib = Inr ib"
| "IB_extra_loop input_rows xextra xsize xpos ypos (ec # ecs) ib =
     (if xpos + xsize + xextra \<le> plane_xsize (extra_channels ib ! ec) then
        IB_extra_loop input_rows xextra xsize xpos ypos ecs
          (ib\<lparr>extra_channels := (extra_channels ib)
                 [ec := copy_extra_row (extra_channels ib ! ec) input_rows xextra xsize xpos ypos ec]\<rparr>)
      else Inl JXL_ASSERT_failed)"

definition IB_ProcessRow ::
  "'a ImageBundle \<Rightarrow> (nat \<Rightarrow> int \<Rightarrow> 'a) \<Rightarrow> nat \<Rightarrow> nat \<Rightarrow> nat \<Rightarrow> nat \<Rightarrow> abort + 'a ImageBundle" where
  "IB_ProcessRow image_bundle input_rows xextra xsize xpos ypos =
     (let ib = image_bundle\<lparr>color := I3F_ProcessRow (color image_bundle) input_rows
                                        xextra xsize xpos ypos\<rparr>
      in IB_extra_loop input_rows xextra xsize xpos ypos [0..<length (extra_channels ib)] ib)"

section \<open>Notions used in the statements\<close>

text \<open>The flip loop after the first \<open>k\<close> iterations of its outer loop.\<close>

definition flip_pixels :: "nat \<Rightarrow> nat \<Rightarrow> nat \<Rightarrow> 'a list \<Rightarrow> 'a list" where
  "flip_pixels num_channels xlen k temp =
     foldl (\<lambda>t p. let i = p * num_channels
                   in foldl (\<lambda>t c. swap_at (i + c) ((xlen - 1) * num_channels - i + c) t) t
                        [0..<num_channels])
       temp [0..<k]"

text \<open>
  Notions for stating what a row call delivers. A batch that starts at offset \<open>x0\<close> holds
  \<open>batch_len limit x0\<close> pixels; \<open>gathered_pixels\<close> are the pixels the gather loop reads
  through the line buffers, one list of samples per pixel.
\<close>

definition batch_len :: "int \<Rightarrow> int \<Rightarrow> nat" where
  "batch_len limit x0 = min kMaxPixelsPerCall (nat (limit - x0))"

definition gathered_pixels :: "(nat \<Rightarrow> row) \<Rightarrow> nat \<Rightarrow> nat \<Rightarrow> float32 list list" where
  "gathered_pixels line_buffers num_channels xlen =
     map (\<lambda>ix. map (\<lambda>c. line_buffers c (int ix)) [0..<num_channels]) [0..<xlen]"

text \<open>
  The relations among the fields of the stage that its constructor establishes for a
  channel count of 1, 2, 3 or 4. Row processing does not modify the stage.
\<close>

definition stage_invariant :: "WriteToPixelCallbackStage \<Rightarrow> bool" where
  "stage_invariant st =
     (num_channels_cb st \<in> {1, 2, 3, 4} \<and>
      num_color_cb st = (if num_channels_cb st < 3 then 1 else 3) \<and>
      want_alpha_cb st = (num_channels_cb st = 2 \<or> num_channels_cb st = 4) \<and>
      opaque_alpha_cb st = replicate kMaxPixelsPerCall (Finite 1))"

text \<open>
  The x coordinate reported for a batch, and the delivery of a batch described on the
  list of its pixels: unpremultiply each pixel, reverse the pixel order, convert, call.
\<close>

definition batch_xstart :: "WriteToPixelCallbackStage \<Rightarrow> nat \<Rightarrow> int \<Rightarrow> nat \<Rightarrow> nat" where
  "batch_xstart st xpos x0 xlen =
     (if flip_x_cb st then FlipX_xstart (width_cb st) (to_size_t (int xpos + x0)) xlen
      else to_size_t (int xpos + x0))"

definition deliver_pixels ::
  "float_target \<Rightarrow> float32 \<Rightarrow> WriteToPixelCallbackStage \<Rightarrow> nat \<Rightarrow> nat \<Rightarrow> nat \<Rightarrow> int
     \<Rightarrow> float32 list list \<Rightarrow> run_call list" where
  "deliver_pixels fe kSmallAlpha st thread_id xpos ypos x0 px =
     (let px1 = (if has_alpha_cb st \<and> want_alpha_cb st \<and> unpremul_alpha_cb st
                 then map (unpremultiply_pixel kSmallAlpha (num_color_cb st)) px else px);
          px2 = (if flip_x_cb st then rev px1 else px1)
      in case convert_pixels fe (data_type_cb st) (swap_endianness_cb st) (concat px2) of
           Some output \<Rightarrow>
             WriteToCallback st thread_id ypos (batch_xstart st xpos x0 (length px)) (length px)
               output
         | None \<Rightarrow> [])"

text \<open>
  The sample that the gather loop reads for output channel \<open>c\<close> at row offset \<open>off\<close>: a
  colour row, the alpha row, or the constant one of \<open>opaque_alpha_cb\<close>; the pixels of the
  batch at \<open>x0\<close>; the number of batches of a row; the loop bound and the row coordinate
  computed by \<^verbatim>\<open>ProcessRow\<close>; and the relation between the line buffers and the rows
  that holds at the head of the batch loop.
\<close>

definition source_sample ::
  "WriteToPixelCallbackStage \<Rightarrow> RowInfo \<Rightarrow> nat \<Rightarrow> int \<Rightarrow> float32" where
  "source_sample st input_rows c off =
     (if c < num_color_cb st then input_rows c off
      else if has_alpha_cb st then input_rows (alpha_c_cb st) off
      else Finite 1)"

definition source_pixel ::
  "WriteToPixelCallbackStage \<Rightarrow> RowInfo \<Rightarrow> int \<Rightarrow> float32 list" where
  "source_pixel st input_rows off =
     map (\<lambda>c. source_sample st input_rows c off) [0..<num_channels_cb st]"

definition batch_pixels ::
  "WriteToPixelCallbackStage \<Rightarrow> RowInfo \<Rightarrow> int \<Rightarrow> int \<Rightarrow> float32 list list" where
  "batch_pixels st input_rows limit x0 =
     map (\<lambda>i. source_pixel st input_rows (x0 + int i)) [0..<batch_len limit x0]"

definition num_batches :: "int \<Rightarrow> int \<Rightarrow> nat" where
  "num_batches limit x0 = nat ((limit - x0 + 1023) div 1024)"

definition row_limit :: "WriteToPixelCallbackStage \<Rightarrow> nat \<Rightarrow> nat \<Rightarrow> nat \<Rightarrow> int" where
  "row_limit st xextra xsize xpos =
     to_ssize_t (int (min (xextra + xsize) (to_size_t (int (width_cb st) - int xpos))))"

definition row_ypos :: "WriteToPixelCallbackStage \<Rightarrow> nat \<Rightarrow> nat" where
  "row_ypos st ypos =
     (if flip_y_cb st then to_size_t (int (height_cb st) - 1 - int ypos) else ypos)"

definition lb_at ::
  "WriteToPixelCallbackStage \<Rightarrow> RowInfo \<Rightarrow> (nat \<Rightarrow> row) \<Rightarrow> int \<Rightarrow> bool" where
  "lb_at st input_rows line_buffers x0 =
     (\<forall>c \<le> num_color_cb st.
        if c < num_color_cb st \<or> has_alpha_cb st
        then \<forall>i. line_buffers c i = source_sample st input_rows c (x0 + i)
        else \<forall>i. 0 \<le> i \<and> i < int kMaxPixelsPerCall \<longrightarrow> line_buffers c i = Finite 1)"

text \<open>
  The single-pixel invocations that stand, under a transpose, for one batch invocation:
  one per pixel of the batch, the two coordinate arguments exchanged, each with the
  samples of its own pixel.
\<close>

definition transposed_calls :: "nat \<Rightarrow> run_call \<Rightarrow> run_call list" where
  "transposed_calls num_channels cl =
     map (\<lambda>i. \<lparr> call_thread = call_thread cl, call_x = call_y cl, call_y = call_x cl + i,
                call_num_pixels = 1,
                call_pixels = pixels_slice (i * num_channels) num_channels (call_pixels cl) \<rparr>)
       [0..<call_num_pixels cl]"

text \<open>
  The columns that an invocation delivers, in the coordinates the callback receives:
  the x range of a batch, or under a transpose the y argument of the single pixel.
\<close>

definition call_columns :: "WriteToPixelCallbackStage \<Rightarrow> run_call \<Rightarrow> nat list" where
  "call_columns st cl =
     (if transpose_cb st then [call_y cl] else [call_x cl..<call_x cl + call_num_pixels cl])"

section \<open>Concrete sinks and rows\<close>

text \<open>The sink of the 2 by 2 RGBA scenario: stride 8, height 2, four bytes per pixel.\<close>

definition tile_sink :: WriteToU8Stage where
  "tile_sink = \<lparr>stride_u8 = 8, height_u8 = 2, rgba_u8 = True, has_alpha_u8 = True, alpha_c_u8 = 3\<rparr>"

text \<open>Concrete input rows, image and bundle, used to instantiate statements.\<close>

definition demo_rows :: RowInfo where
  "demo_rows = (\<lambda>c i. Finite (of_nat c + of_int i / 8))"

definition demo_image :: "float32 Image3F" where
  "demo_image = \<lparr>image_xsize = 8, image_ysize = 2, PlaneRow = (\<lambda>c y x. Finite 0)\<rparr>"

definition demo_bundle :: "float32 ImageBundle" where
  "demo_bundle =
     \<lparr>color = demo_image,
      extra_channels = [\<lparr>plane_xsize = 8, plane_ysize = 2, plane_Row = (\<lambda>y x. Finite 0)\<rparr>]\<rparr>"

text \<open>
  A target on which \<^verbatim>\<open>Max\<close> and \<^verbatim>\<open>Min\<close> return their second operand when an operand
  is NaN and \<^verbatim>\<open>NearestInt\<close> gives 0 outside its domain; a callback object and a
  one-channel sink 3000 pixels wide, used to instantiate statements.
\<close>

definition demo_target :: float_target where
  "demo_target =
     \<lparr>float_bits = (\<lambda>v. 0), half_bits = (\<lambda>v. 0), nan_max = (\<lambda>a b. b), nan_min = (\<lambda>a b. b),
      nearest_special = (\<lambda>v. 0)\<rparr>"

definition demo_callback :: PixelCallback where
  "demo_callback = \<lparr>cb_Init = (\<lambda>num_threads num_pixels. Some 1)\<rparr>"

definition wide_sink :: "Orientation \<Rightarrow> WriteToPixelCallbackStage" where
  "wide_sink undo_orientation =
     GetWriteToPixelCallbackStage demo_callback 3000 4 1 False False 0 False undo_orientation
       JXL_TYPE_UINT8"

text \<open>A one-channel sink 10 pixels wide and 4 rows high.\<close>

definition narrow_sink :: "Orientation \<Rightarrow> WriteToPixelCallbackStage" where
  "narrow_sink undo_orientation =
     GetWriteToPixelCallbackStage demo_callback 10 4 1 False False 0 False undo_orientation
       JXL_TYPE_UINT8"

text \<open>A RawBufferSink of height 4.\<close>

definition tall_sink :: WriteToU8Stage where
  "tall_sink = \<lparr>stride_u8 = 32, height_u8 = 4, rgba_u8 = True, has_alpha_u8 = False, alpha_c_u8 = 3\<rparr>"





section \<open>Properties of binary32 rounding\<close>

lemma pow2_powr: "pow2 e = 2 powr (of_int e)"
proof (cases "0 \<le> e")
  case True
  then show ?thesis by (simp add: pow2_def powr_realpow [symmetric])
next
  case False
  then have "(2::real) powr (of_int e) = 1 / 2 powr (of_int (- e))"
    by (simp add: powr_minus divide_inverse)
  also have "\<dots> = 1 / 2 ^ nat (- e)"
    using False powr_realpow [of "2::real" "nat (- e)"] by simp
  finally show ?thesis using False by (simp add: pow2_def)
qed

lemma pow2_pos: "0 < pow2 e"
  by (simp add: pow2_powr)

lemma pow2_add: "pow2 (a + b) = pow2 a * pow2 b"
  by (simp add: pow2_powr powr_add)

lemma pow2_mono: "a \<le> b \<Longrightarrow> pow2 a \<le> pow2 b"
  by (simp add: pow2_powr)

lemma pow2_strict_mono: "a < b \<Longrightarrow> pow2 a < pow2 b"
  by (simp add: pow2_powr)

lemma pow2_nat: "0 \<le> e \<Longrightarrow> pow2 e = of_int (2 ^ nat e)"
  by (simp add: pow2_def)

lemma ulp_search_found:
  assumes "e0 \<le> e" "e \<le> 104"
    and "\<And>e'. e0 \<le> e' \<Longrightarrow> e' < e \<Longrightarrow> pow2 (e' + 24) \<le> a"
    and "e = 104 \<or> a < pow2 (e + 24)"
  shows "ulp_search a e0 = e"
  using assms
proof (induction "nat (e - e0)" arbitrary: e0)
  case 0
  then have "e0 = e" by simp
  with 0 show ?case by (auto simp: ulp_search.simps [of a e])
next
  case (Suc n)
  then have lt: "e0 < e" by linarith
  then have "pow2 (e0 + 24) \<le> a" using Suc.prems by simp
  then have "ulp_search a e0 = ulp_search a (e0 + 1)"
    using lt Suc.prems(2) by (simp add: ulp_search.simps [of a e0])
  also have "\<dots> = e"
    using Suc.hyps(2) lt Suc.prems by (intro Suc.hyps(1)) auto
  finally show ?case .
qed

lemma f32_ulp_exp_normal:
  assumes "pow2 (e + 23) \<le> \<bar>x\<bar>" "\<bar>x\<bar> < pow2 (e + 24)" "- 149 \<le> e" "e \<le> 104"
  shows "f32_ulp_exp x = e"
  unfolding f32_ulp_exp_def
proof (rule ulp_search_found)
  fix e' :: int assume "- 149 \<le> e'" "e' < e"
  then have "pow2 (e' + 24) \<le> pow2 (e + 23)" by (intro pow2_mono) simp
  then show "pow2 (e' + 24) \<le> \<bar>x\<bar>" using assms(1) by simp
qed (use assms in auto)

lemma f32_ulp_exp_subnormal:
  assumes "\<bar>x\<bar> < pow2 (- 125)"
  shows "f32_ulp_exp x = - 149"
  unfolding f32_ulp_exp_def
  by (rule ulp_search_found) (use assms in auto)

lemma f32_ulp_exp_huge:
  assumes "pow2 127 \<le> \<bar>x\<bar>"
  shows "f32_ulp_exp x = 104"
  unfolding f32_ulp_exp_def
proof (rule ulp_search_found)
  fix e' :: int assume "- 149 \<le> e'" "e' < 104"
  then have "pow2 (e' + 24) \<le> pow2 127" by (intro pow2_mono) simp
  then show "pow2 (e' + 24) \<le> \<bar>x\<bar>" using assms(1) by simp
qed auto

lemma ulp_search_range: "e0 \<le> 104 \<Longrightarrow> e0 \<le> ulp_search a e0 \<and> ulp_search a e0 \<le> 104"
proof (induction a e0 rule: ulp_search.induct)
  case (1 a e)
  show ?case
  proof (cases "e < 104 \<and> pow2 (e + 24) \<le> a")
    case True
    then have "e + 1 \<le> ulp_search a (e + 1) \<and> ulp_search a (e + 1) \<le> 104" using 1 by simp
    then show ?thesis using True by (simp add: ulp_search.simps [of a e])
  next
    case False
    then have "ulp_search a e = e" by (subst ulp_search.simps) auto
    then show ?thesis using 1(2) by simp
  qed
qed

lemma ulp_search_bound: "e0 \<le> 104 \<Longrightarrow> ulp_search a e0 = 104 \<or> a < pow2 (ulp_search a e0 + 24)"
proof (induction a e0 rule: ulp_search.induct)
  case (1 a e)
  show ?case
  proof (cases "e < 104 \<and> pow2 (e + 24) \<le> a")
    case True
    then show ?thesis using 1 by (simp add: ulp_search.simps [of a e])
  next
    case False
    then show ?thesis using 1 by (auto simp add: ulp_search.simps [of a e])
  qed
qed

lemma ulp_search_le: "e0 \<le> e \<Longrightarrow> e \<le> 104 \<Longrightarrow> a < pow2 (e + 24) \<Longrightarrow> ulp_search a e0 \<le> e"
proof (induction a e0 rule: ulp_search.induct)
  case (1 a e0)
  show ?case
  proof (cases "e0 < 104 \<and> pow2 (e0 + 24) \<le> a")
    case True
    have "e0 \<noteq> e" using True 1(4) by auto
    then show ?thesis using True 1 by (simp add: ulp_search.simps [of a e0])
  next
    case False
    then show ?thesis using 1 by (auto simp add: ulp_search.simps [of a e0])
  qed
qed

lemma f32_ulp_exp_range: "- 149 \<le> f32_ulp_exp x" "f32_ulp_exp x \<le> 104"
  using ulp_search_range [of "- 149" "\<bar>x\<bar>"] by (simp_all add: f32_ulp_exp_def)

lemma f32_ulp_exp_le: "- 149 \<le> e \<Longrightarrow> e \<le> 104 \<Longrightarrow> \<bar>x\<bar> < pow2 (e + 24) \<Longrightarrow> f32_ulp_exp x \<le> e"
  unfolding f32_ulp_exp_def by (rule ulp_search_le)

lemma rhe_of_int: "round_half_even (of_int i) = i"
  by (simp add: round_half_even_def)

lemma rhe_nearest: "\<bar>of_int (round_half_even v) - v\<bar> \<le> 1 / 2"
proof -
  define f where "f = \<lfloor>v\<rfloor>"
  have "of_int f \<le> v" "v < of_int f + 1" by (simp_all add: f_def)
  then show ?thesis by (auto simp add: round_half_even_def Let_def f_def [symmetric])
qed

lemma rhe_lower: "of_int i \<le> v \<Longrightarrow> i \<le> round_half_even v"
proof -
  assume "of_int i \<le> v"
  then have "i \<le> \<lfloor>v\<rfloor>" by (simp add: le_floor_iff)
  then show ?thesis by (simp add: round_half_even_def Let_def)
qed

lemma rhe_upper: "v \<le> of_int i \<Longrightarrow> round_half_even v \<le> i"
proof -
  assume a: "v \<le> of_int i"
  define f where "f = \<lfloor>v\<rfloor>"
  have f: "of_int f \<le> v" "v < of_int f + 1" by (simp_all add: f_def)
  show ?thesis
  proof (cases "v = of_int i")
    case True
    then show ?thesis by (simp add: rhe_of_int)
  next
    case False
    with a have "v < of_int i" by simp
    then have "f < i" using f(1) by (simp add: f_def floor_less_iff)
    then show ?thesis by (simp add: round_half_even_def Let_def f_def [symmetric])
  qed
qed




lemma round_f32_exact:
  assumes m: "\<bar>m\<bar> < 2 ^ 24" and e: "- 149 \<le> e" "e \<le> 104"
  shows "round_f32 (of_int m * pow2 e) = Finite (of_int m * pow2 e)"
proof -
  define x where "x = of_int m * pow2 e"
  define r where "r = f32_ulp_exp x"
  have "\<bar>x\<bar> = of_int \<bar>m\<bar> * pow2 e" using pow2_pos [of e] by (simp add: x_def abs_mult)
  also have "\<dots> < 2 ^ 24 * pow2 e"
  proof -
    have "(of_int \<bar>m\<bar> :: real) < of_int (2 ^ 24)" using m by (simp only: of_int_less_iff)
    then show ?thesis using pow2_pos [of e] by simp
  qed
  also have "\<dots> = pow2 (e + 24)" using pow2_add [of e 24] by (simp add: pow2_def [of 24])
  finally have "r \<le> e" unfolding r_def using e by (intro f32_ulp_exp_le) auto
  then have d: "pow2 e = pow2 r * of_int (2 ^ nat (e - r))"
    using pow2_add [of r "e - r"] by (simp add: pow2_def)
  have "x / pow2 r = of_int (m * 2 ^ nat (e - r))"
    using pow2_pos [of r] by (simp add: x_def d)
  then have q: "round_half_even (x / pow2 r) = m * 2 ^ nat (e - r)"
    by (simp only: rhe_of_int)
  have no: "\<not> (r = 104 \<and> 2 ^ 24 \<le> \<bar>m * 2 ^ nat (e - r)\<bar>)"
  proof
    assume a: "r = 104 \<and> 2 ^ 24 \<le> \<bar>m * 2 ^ nat (e - r)\<bar>"
    then have "e - r = 0" using \<open>r \<le> e\<close> e by simp
    then have "\<bar>m * 2 ^ nat (e - r)\<bar> = \<bar>m\<bar>" by simp
    then show False using a m by linarith
  qed
  have "round_f32 x = Finite (of_int (m * 2 ^ nat (e - r)) * pow2 r)"
    using no unfolding round_f32_def r_def [symmetric] Let_def q by simp
  also have "of_int (m * 2 ^ nat (e - r)) * pow2 r = x" by (simp add: x_def d)
  finally show ?thesis by (simp add: x_def)
qed

lemma round_f32_int: "\<bar>m\<bar> < 2 ^ 24 \<Longrightarrow> round_f32 (of_int m) = Finite (of_int m)"
  using round_f32_exact [of m 0] by (simp add: pow2_def)

lemma round_f32_normal:
  assumes "pow2 (e + 23) \<le> \<bar>x\<bar>" "\<bar>x\<bar> < pow2 (e + 24)" "- 149 \<le> e" "e < 104"
  shows "round_f32 x = Finite (of_int (round_half_even (x / pow2 e)) * pow2 e)"
proof -
  have "f32_ulp_exp x = e" using assms by (intro f32_ulp_exp_normal) auto
  then show ?thesis using assms(4) by (simp add: round_f32_def Let_def)
qed

lemma round_f32_error:
  assumes "- 149 \<le> e" "e < 104" "\<bar>x\<bar> < pow2 (e + 24)"
  shows "\<exists>y. round_f32 x = Finite y \<and> \<bar>y - x\<bar> \<le> pow2 e / 2"
proof -
  define r where "r = f32_ulp_exp x"
  define m where "m = round_half_even (x / pow2 r)"
  have r: "r \<le> e" unfolding r_def using assms by (intro f32_ulp_exp_le) auto
  then have "round_f32 x = Finite (of_int m * pow2 r)"
    using assms(2) by (simp add: round_f32_def r_def m_def Let_def)
  moreover have "\<bar>of_int m * pow2 r - x\<bar> \<le> pow2 e / 2"
  proof -
    have "of_int m * pow2 r - x = (of_int m - x / pow2 r) * pow2 r"
      using pow2_pos [of r] by (simp add: field_simps)
    then have "\<bar>of_int m * pow2 r - x\<bar> = \<bar>of_int m - x / pow2 r\<bar> * pow2 r"
      using pow2_pos [of r] by (simp add: abs_mult)
    also have "\<dots> \<le> 1 / 2 * pow2 r"
      using rhe_nearest [of "x / pow2 r"] pow2_pos [of r] unfolding m_def
      by (intro mult_right_mono) auto
    also have "\<dots> \<le> 1 / 2 * pow2 e" using pow2_mono [OF r] by simp
    finally show ?thesis by simp
  qed
  ultimately show ?thesis by blast
qed

lemma round_f32_range:
  assumes "0 \<le> x" "x \<le> of_int n" "n < 2 ^ 24"
  shows "\<exists>y. round_f32 x = Finite y \<and> 0 \<le> y \<and> y \<le> of_int n"
proof -
  define r where "r = f32_ulp_exp x"
  define m where "m = round_half_even (x / pow2 r)"
  have "x < of_int (2 ^ 24)" using assms(2,3)
    by (meson less_le_trans not_le of_int_less_iff order_trans)
  then have "\<bar>x\<bar> < pow2 (0 + 24)" using assms(1) by (simp add: pow2_def)
  then have r: "r \<le> 0" unfolding r_def by (intro f32_ulp_exp_le) auto
  then have y: "round_f32 x = Finite (of_int m * pow2 r)"
    by (simp add: round_f32_def r_def m_def Let_def)
  have "0 \<le> x / pow2 r" using assms(1) pow2_pos [of r] by simp
  then have "0 \<le> m" unfolding m_def using rhe_lower [of 0 "x / pow2 r"] by simp
  then have lo: "0 \<le> of_int m * pow2 r" using pow2_pos [of r] by simp
  have inv: "1 / pow2 r = of_int (2 ^ nat (- r))"
    using r pow2_add [of r "- r"] pow2_pos [of r] by (simp add: pow2_def field_simps)
  have "x / pow2 r \<le> of_int n / pow2 r"
    using assms(2) pow2_pos [of r] by (simp add: divide_right_mono)
  also have "of_int n / pow2 r = of_int n * (1 / pow2 r)" by simp
  also have "\<dots> = of_int (n * 2 ^ nat (- r))" by (simp only: inv of_int_mult)
  finally have "m \<le> n * 2 ^ nat (- r)" unfolding m_def by (rule rhe_upper)
  then have "(of_int m :: real) \<le> of_int (n * 2 ^ nat (- r))" by (simp only: of_int_le_iff)
  also have "\<dots> = of_int n * (1 / pow2 r)" by (simp only: inv of_int_mult)
  finally have "of_int m * pow2 r \<le> of_int n" using pow2_pos [of r] by (simp add: field_simps)
  with y lo show ?thesis by blast
qed


text \<open>Every finite result of the rounding is a binary32 number.\<close>

lemma round_f32_representable:
  assumes "round_f32 x = Finite y"
  shows "\<exists>m e. y = of_int m * pow2 e \<and> \<bar>m\<bar> \<le> 2 ^ 24 \<and> - 149 \<le> e \<and> e \<le> 104 \<and>
               (e = 104 \<longrightarrow> \<bar>m\<bar> < 2 ^ 24)"
proof -
  define r where "r = f32_ulp_exp x"
  define m where "m = round_half_even (x / pow2 r)"
  have rng: "- 149 \<le> r" "r \<le> 104" unfolding r_def by (rule f32_ulp_exp_range)+
  have y: "y = of_int m * pow2 r" and no: "\<not> (r = 104 \<and> 2 ^ 24 \<le> \<bar>m\<bar>)"
    using assms unfolding round_f32_def r_def [symmetric] Let_def m_def [symmetric]
    by (auto split: if_splits)
  have "\<bar>m\<bar> \<le> 2 ^ 24"
  proof (cases "r = 104")
    case True
    then show ?thesis using no by simp
  next
    case False
    have "\<bar>x\<bar> < pow2 (r + 24)"
      using ulp_search_bound [of "- 149" "\<bar>x\<bar>"] False by (simp add: r_def f32_ulp_exp_def)
    also have "\<dots> = pow2 r * of_int (2 ^ 24)"
      using pow2_add [of r 24] by (simp add: pow2_def [of 24])
    finally have b: "\<bar>x / pow2 r\<bar> < of_int (2 ^ 24)"
      using pow2_pos [of r] by (simp add: abs_divide field_simps)
    then have "x / pow2 r \<le> of_int (2 ^ 24)" "of_int (- (2 ^ 24)) \<le> x / pow2 r"
      by (simp_all only: abs_less_iff of_int_minus) linarith+
    then have "m \<le> 2 ^ 24" "- (2 ^ 24) \<le> m"
      unfolding m_def by (auto intro: rhe_upper rhe_lower)
    then show ?thesis by simp
  qed
  with y rng no show ?thesis by (intro exI [of _ m] exI [of _ r]) auto
qed

section \<open>Properties of RawBufferSink\<close>

lemma apply_writes_Nil: "apply_writes [] buf = buf"
  by (simp add: apply_writes_def)

lemma apply_writes_append:
  "apply_writes (ws @ ws') buf = apply_writes ws' (apply_writes ws buf)"
  by (simp add: apply_writes_def)

lemma apply_writes_snoc:
  "apply_writes (ws @ [w]) buf = (apply_writes ws buf)(fst w := snd w)"
  by (simp add: apply_writes_def)

lemma apply_writes_frame:
  "a \<notin> fst ` set ws \<Longrightarrow> apply_writes ws buf a = buf a"
proof (induction ws rule: rev_induct)
  case Nil
  show ?case by (simp add: apply_writes_Nil)
next
  case (snoc w ws)
  then show ?case by (simp add: apply_writes_snoc)
qed

lemma apply_writes_value:
  "(a, v) \<in> set ws \<Longrightarrow> (\<And>w. w \<in> set ws \<Longrightarrow> fst w = a \<Longrightarrow> snd w = v)
     \<Longrightarrow> apply_writes ws buf a = v"
proof (induction ws rule: rev_induct)
  case Nil
  then show ?case by simp
next
  case (snoc w ws)
  show ?case
  proof (cases "fst w = a")
    case True
    with snoc.prems(2) [of w] show ?thesis by (simp add: apply_writes_snoc)
  next
    case False
    with snoc.prems(1) have "(a, v) \<in> set ws" by auto
    moreover have "\<And>w'. w' \<in> set ws \<Longrightarrow> fst w' = a \<Longrightarrow> snd w' = v"
      using snoc.prems(2) by simp
    ultimately have "apply_writes ws buf a = v" by (rule snoc.IH)
    with False show ?thesis by (simp add: apply_writes_snoc)
  qed
qed

lemma nth_concat_uniform:
  "(\<And>xs. xs \<in> set xss \<Longrightarrow> length xs = m) \<Longrightarrow> i < length xss \<Longrightarrow> k < m
     \<Longrightarrow> concat xss ! (i * m + k) = xss ! i ! k"
proof (induction xss arbitrary: i)
  case Nil
  then show ?case by simp
next
  case (Cons xs xss)
  have len: "length xs = m" using Cons.prems(1) by simp
  show ?case
  proof (cases i)
    case 0
    with len Cons.prems(3) show ?thesis by (simp add: nth_append)
  next
    case (Suc j)
    have "concat xss ! (j * m + k) = xss ! j ! k"
      using Cons.prems Suc by (intro Cons.IH) auto
    with len Suc show ?thesis by (simp add: nth_append)
  qed
qed

lemma length_concat_uniform:
  "(\<And>xs. xs \<in> set xss \<Longrightarrow> length xs = m) \<Longrightarrow> length (concat xss) = length xss * m"
  by (induction xss) auto

lemma interleave_nth:
  "i < 8 \<Longrightarrow> k < length vs \<Longrightarrow> interleave vs ! (i * length vs + k) = vs ! k ! i"
proof -
  assume i: "i < 8" and k: "k < length vs"
  let ?xss = "map (\<lambda>i. map (\<lambda>v. v ! i) vs) [0..<8]"
  have "concat ?xss ! (i * length vs + k) = ?xss ! i ! k"
    using i k by (intro nth_concat_uniform) auto
  also have "\<dots> = vs ! k ! i" using i k by simp
  finally show ?thesis by (simp add: interleave_def)
qed

lemma lt4_cases: "k < (4::nat) \<Longrightarrow> k = 0 \<or> k = 1 \<or> k = 2 \<or> k = 3" by arith
lemma lt3_cases: "k < (3::nat) \<Longrightarrow> k = 0 \<or> k = 1 \<or> k = 2" by arith

lemma set_memcpy_bytes:
  "set (memcpy_bytes dst src n) = {(dst + j, src ! j) | j. j < n}"
  by (auto simp: memcpy_bytes_def)

lemma set_store_lanes:
  "set (store_lanes buf m k bytes n) = {(buf + (m * i + k), bytes ! i) | i. i < n}"
  by (auto simp: store_lanes_def)

lemma interleave4_nth:
  "j < 32 \<Longrightarrow> interleave [r, g, b, a] ! j = [r, g, b, a] ! (j mod 4) ! (j div 4)"
proof -
  assume j: "j < 32"
  have l: "length [r, g, b, a] = 4" by simp
  have e: "j div 4 * 4 + j mod 4 = j" by simp
  have "j div 4 < 8" "j mod 4 < length [r, g, b, a]" using j by auto
  from interleave_nth [OF this] show ?thesis unfolding l e .
qed

lemma interleave3_nth:
  "j < 24 \<Longrightarrow> interleave [r, g, b] ! j = [r, g, b, a] ! (j mod 3) ! (j div 3)"
proof -
  assume j: "j < 24"
  have l: "length [r, g, b] = 3" by simp
  have e: "j div 3 * 3 + j mod 3 = j" by simp
  have "j div 3 < 8" "j mod 3 < length [r, g, b]" using j by auto
  from interleave_nth [OF this]
  have "interleave [r, g, b] ! j = [r, g, b] ! (j mod 3) ! (j div 3)" unfolding l e .
  moreover have "[r, g, b] ! (j mod 3) = [r, g, b, a] ! (j mod 3)"
    using lt3_cases [of "j mod 3"] by auto
  ultimately show ?thesis by simp
qed

lemma StoreRGBA_sub:
  assumes w: "w \<in> set (StoreRGBA tg r g b a alpha n extra buf)"
    and n: "1 \<le> n" "n \<le> 8"
  shows "\<exists>i k. i < stored_lanes tg n extra \<and> k < (if alpha then 4 else 3) \<and>
           w = (buf + ((if alpha then 4 else 3) * i + k), [r, g, b, a] ! k ! i)"
proof (cases tg)
  case HWY_SCALAR
  with w have "w = (buf + 0, r ! 0) \<or> w = (buf + 1, g ! 0) \<or> w = (buf + 2, b ! 0) \<or>
     (alpha \<and> w = (buf + 3, a ! 0))"
    by (auto split: if_splits)
  then show ?thesis
  proof (elim disjE conjE)
    assume "w = (buf + 0, r ! 0)"
    then show ?thesis using n HWY_SCALAR
      by (intro exI [of _ 0]) (simp add: stored_lanes_def)
  next
    assume "w = (buf + 1, g ! 0)"
    then show ?thesis using n HWY_SCALAR
      by (intro exI [of _ 0] exI [of _ 1]) (simp add: stored_lanes_def)
  next
    assume "w = (buf + 2, b ! 0)"
    then show ?thesis using n HWY_SCALAR
      by (intro exI [of _ 0] exI [of _ 2]) (simp add: stored_lanes_def)
  next
    assume "alpha" "w = (buf + 3, a ! 0)"
    then show ?thesis using n HWY_SCALAR
      by (intro exI [of _ 0] exI [of _ 3]) (simp add: stored_lanes_def)
  qed
next
  case HWY_NEON
  show ?thesis
  proof (cases alpha)
    case True
    from w HWY_NEON True obtain j where j: "j < stored_lanes tg n extra * 4"
      and wj: "w = (buf + j, interleave [r, g, b, a] ! j)"
      by (auto simp: vst_u8_def set_memcpy_bytes stored_lanes_def split: if_splits)
    have "stored_lanes tg n extra \<le> 8" using n by (simp add: stored_lanes_def)
    with j have j32: "j < 32" by simp
    have "j div 4 < stored_lanes tg n extra" using j by simp
    moreover have "j mod 4 < (if alpha then 4 else 3)" using True by simp
    moreover have "w = (buf + ((if alpha then 4 else 3) * (j div 4) + j mod 4),
        [r, g, b, a] ! (j mod 4) ! (j div 4))"
      using wj interleave4_nth [OF j32] True by simp
    ultimately show ?thesis by blast
  next
    case False
    from w HWY_NEON False obtain j where j: "j < stored_lanes tg n extra * 3"
      and wj: "w = (buf + j, interleave [r, g, b] ! j)"
      by (auto simp: vst_u8_def set_memcpy_bytes stored_lanes_def split: if_splits)
    have "stored_lanes tg n extra \<le> 8" using n by (simp add: stored_lanes_def)
    with j have j24: "j < 24" by simp
    have "j div 3 < stored_lanes tg n extra" using j by simp
    moreover have "j mod 3 < (if alpha then 4 else 3)" using False by simp
    moreover have "w = (buf + ((if alpha then 4 else 3) * (j div 3) + j mod 3),
        [r, g, b, a] ! (j mod 3) ! (j div 3))"
      using wj interleave3_nth [OF j24] False by simp
    ultimately show ?thesis by blast
  qed
next
  case HWY_OTHER
  with w have "\<exists>i<n. w = (buf + ((if alpha then 4 else 3) * i + 0), r ! i) \<or>
      w = (buf + ((if alpha then 4 else 3) * i + 1), g ! i) \<or>
      w = (buf + ((if alpha then 4 else 3) * i + 2), b ! i) \<or>
      (alpha \<and> w = (buf + (4 * i + 3), a ! i))"
    by (auto simp: set_store_lanes Let_def split: if_splits)
  then obtain i where i: "i < n" and d: "w = (buf + ((if alpha then 4 else 3) * i + 0), r ! i) \<or>
      w = (buf + ((if alpha then 4 else 3) * i + 1), g ! i) \<or>
      w = (buf + ((if alpha then 4 else 3) * i + 2), b ! i) \<or>
      (alpha \<and> w = (buf + (4 * i + 3), a ! i))" by blast
  have i': "i < stored_lanes tg n extra" using i HWY_OTHER by (simp add: stored_lanes_def)
  from d show ?thesis
  proof (elim disjE conjE)
    assume "w = (buf + ((if alpha then 4 else 3) * i + 0), r ! i)"
    then show ?thesis using i' by (intro exI [of _ i] exI [of _ 0]) simp
  next
    assume "w = (buf + ((if alpha then 4 else 3) * i + 1), g ! i)"
    then show ?thesis using i' by (intro exI [of _ i] exI [of _ 1]) simp
  next
    assume "w = (buf + ((if alpha then 4 else 3) * i + 2), b ! i)"
    then show ?thesis using i' by (intro exI [of _ i] exI [of _ 2]) simp
  next
    assume "alpha" "w = (buf + (4 * i + 3), a ! i)"
    then show ?thesis using i' by (intro exI [of _ i] exI [of _ 3]) simp
  qed
qed

lemma StoreRGBA_sup:
  assumes i: "i < n" and k: "k < (if alpha then 4 else 3)"
    and n: "n \<le> Lanes_capped4 tg"
  shows "(buf + ((if alpha then 4 else 3) * i + k), [r, g, b, a] ! k ! i)
           \<in> set (StoreRGBA tg r g b a alpha n extra buf)"
proof (cases tg)
  case HWY_SCALAR
  with i n have i0: "i = 0" by simp
  from k have "k = 0 \<or> k = 1 \<or> k = 2 \<or> (alpha \<and> k = 3)"
    by (cases alpha) (auto dest: lt4_cases lt3_cases)
  then show ?thesis using HWY_SCALAR i0 by auto
next
  case HWY_NEON
  with n have n4: "n \<le> 4" by simp
  show ?thesis
  proof (cases alpha)
    case True
    let ?j = "4 * i + k"
    from k True have k4: "k < 4" by simp
    have j32: "?j < 32" using i n4 k4 by arith
    have jn: "?j < n * 4" using i k4 by arith
    have dm: "?j div 4 = i" "?j mod 4 = k" using k4 by auto
    have "(buf + ?j, interleave [r, g, b, a] ! ?j) \<in> set (StoreRGBA tg r g b a alpha n extra buf)"
      using HWY_NEON True j32 jn by (auto simp: vst_u8_def set_memcpy_bytes)
    then show ?thesis using interleave4_nth [OF j32, of r g b a] dm True by simp
  next
    case False
    let ?j = "3 * i + k"
    from k False have k3: "k < 3" by simp
    have j24: "?j < 24" using i n4 k3 by arith
    have jn: "?j < n * 3" using i k3 by arith
    have dm: "?j div 3 = i" "?j mod 3 = k" using k3 by auto
    have "(buf + ?j, interleave [r, g, b] ! ?j) \<in> set (StoreRGBA tg r g b a alpha n extra buf)"
      using HWY_NEON False j24 jn by (auto simp: vst_u8_def set_memcpy_bytes)
    then show ?thesis using interleave3_nth [OF j24, of r g b a] dm False by simp
  qed
next
  case HWY_OTHER
  from k have "k = 0 \<or> k = 1 \<or> k = 2 \<or> (alpha \<and> k = 3)"
    by (cases alpha) (auto dest: lt4_cases lt3_cases)
  then show ?thesis using HWY_OTHER i
    by (auto simp: set_store_lanes Let_def)
qed

lemma Lanes_capped4_cases: "Lanes_capped4 tg = 1 \<or> Lanes_capped4 tg = 4"
  by (cases tg) auto

lemma Lanes_le_raw: "Lanes_capped4 tg \<le> raw_lanes tg"
  by (cases tg) (auto simp: raw_lanes_def)

lemma lanes_u8_nth:
  "i < Lanes_capped4 tg \<Longrightarrow>
   lanes_u8 fe tg up row_in x ! i =
     (case row_in of Some rw \<Rightarrow> to_u8 fe (rw (int (x + i))) | None \<Rightarrow> opaque_u8 fe)"
proof -
  assume i: "i < Lanes_capped4 tg"
  with Lanes_le_raw [of tg] have "i < raw_lanes tg" by simp
  then have "[0..<raw_lanes tg] ! i = i" by simp
  with i \<open>i < raw_lanes tg\<close> show ?thesis by (cases row_in) (simp_all add: lanes_u8_def)
qed

lemma StoreRGBA_value:
  assumes i: "i < n" and k: "k < (if alpha then 4 else 3)" and n: "n \<le> Lanes_capped4 tg"
  shows "apply_writes (StoreRGBA tg r g b a alpha n extra buf) m
           (buf + ((if alpha then 4 else 3) * i + k)) = [r, g, b, a] ! k ! i"
proof (rule apply_writes_value)
  show "(buf + ((if alpha then 4 else 3) * i + k), [r, g, b, a] ! k ! i)
          \<in> set (StoreRGBA tg r g b a alpha n extra buf)"
    using i k n by (rule StoreRGBA_sup)
next
  fix w
  assume w: "w \<in> set (StoreRGBA tg r g b a alpha n extra buf)"
    and a: "fst w = buf + ((if alpha then 4 else 3) * i + k)"
  have n8: "1 \<le> n" "n \<le> 8" using i n Lanes_capped4_cases [of tg] by auto
  from StoreRGBA_sub [OF w n8] obtain i' k' where
    k': "k' < (if alpha then 4 else 3)" and
    w': "w = (buf + ((if alpha then 4 else 3) * i' + k'), [r, g, b, a] ! k' ! i')"
    by blast
  from a w' have "(if alpha then 4 else 3) * i' + k' = (if alpha then 4 else 3) * i + k"
    by simp
  with k k' have "i' = i \<and> k' = k" by (cases alpha) (simp_all, arith+)
  with w' show "snd w = [r, g, b, a] ! k ! i" by simp
qed

lemma StoreRGBA_frame:
  assumes n: "1 \<le> n" "n \<le> 8"
    and a: "a < buf \<or> buf + (if alpha then 4 else 3) * stored_lanes tg n extra \<le> a"
  shows "apply_writes (StoreRGBA tg r g b a' alpha n extra buf) m a = m a"
proof (rule apply_writes_frame, rule notI)
  assume "a \<in> fst ` set (StoreRGBA tg r g b a' alpha n extra buf)"
  then obtain w where w: "w \<in> set (StoreRGBA tg r g b a' alpha n extra buf)" and f: "fst w = a"
    by auto
  from StoreRGBA_sub [OF w n] obtain i k where
    i: "i < stored_lanes tg n extra" and k: "k < (if alpha then 4 else 3)" and
    w': "w = (buf + ((if alpha then 4 else 3) * i + k), [r, g, b, a'] ! k ! i)"
    by blast
  from f w' have e: "a = buf + ((if alpha then 4 else 3) * i + k)" by simp
  have "(if alpha then 4 else 3) * i + k < (if alpha then 4 else 3) * stored_lanes tg n extra"
  proof -
    have "Suc i \<le> stored_lanes tg n extra" using i by simp
    then have "(if alpha then 4 else 3) * Suc i \<le> (if alpha then 4 else 3) * stored_lanes tg n extra"
      by (rule mult_le_mono2)
    with k show ?thesis by (cases alpha) simp_all
  qed
  with e a show False by simp
qed

lemma RoundUpTo_bound:
  assumes d: "Lanes_capped4 tg dvd x" and x: "x < RoundUpTo xsize (Lanes_capped4 tg)"
  shows "x < xsize"
proof -
  from Lanes_capped4_cases [of tg] show ?thesis
  proof
    assume "Lanes_capped4 tg = 1"
    with x show ?thesis by (simp add: RoundUpTo_def)
  next
    assume l: "Lanes_capped4 tg = 4"
    with d obtain q where q: "x = 4 * q" by (auto simp: dvd_def)
    from x l have "x < ((xsize + 3) div 4) * 4" by (simp add: RoundUpTo_def add.commute)
    with q show ?thesis by arith
  qed
qed

lemma lanes_vec_nth:
  assumes i: "i < Lanes_capped4 tg" and k: "k < 4"
  shows "[lanes_u8 fe tg u0 (Some row_in_r) x, lanes_u8 fe tg u1 (Some row_in_g) x,
          lanes_u8 fe tg u2 (Some row_in_b) x, lanes_u8 fe tg u3 row_in_a x] ! k ! i =
         expected_byte fe row_in_r row_in_g row_in_b row_in_a k (x + i)"
  using lt4_cases [OF k] i by (auto simp: lanes_u8_nth expected_byte_def)

lemma U8_loop_unfold:
  "x < x1 \<Longrightarrow>
   U8_loop fe tg upper rgba row_in_r row_in_g row_in_b row_in_a base_ptr xsize x1 x =
     StoreRGBA tg (lanes_u8 fe tg (upper x 0) (Some row_in_r) x)
       (lanes_u8 fe tg (upper x 1) (Some row_in_g) x)
       (lanes_u8 fe tg (upper x 2) (Some row_in_b) x)
       (lanes_u8 fe tg (upper x 3) row_in_a x) rgba
       (min (Lanes_capped4 tg) (xsize - x)) (xsize - x)
       (base_ptr + (if rgba then 4 else 3) * x) @
     U8_loop fe tg upper rgba row_in_r row_in_g row_in_b row_in_a base_ptr xsize x1
       (x + Lanes_capped4 tg)"
  by (subst U8_loop.simps) (simp add: Let_def min_def)

lemma U8_loop_done:
  "\<not> x < x1 \<Longrightarrow>
   U8_loop fe tg upper rgba row_in_r row_in_g row_in_b row_in_a base_ptr xsize x1 x = []"
  by (subst U8_loop.simps) simp

lemma U8_loop_mem:
  assumes d: "Lanes_capped4 tg dvd x"
  shows "(\<forall>p k. x \<le> p \<longrightarrow> p < xsize \<longrightarrow> k < (if rgba then 4 else 3) \<longrightarrow>
            apply_writes (U8_loop fe tg upper rgba row_in_r row_in_g row_in_b row_in_a base_ptr
                            xsize (RoundUpTo xsize (Lanes_capped4 tg)) x) m
              (base_ptr + ((if rgba then 4 else 3) * p + k)) =
            expected_byte fe row_in_r row_in_g row_in_b row_in_a k p) \<and>
         (\<forall>a. a < base_ptr + (if rgba then 4 else 3) * x \<or>
               base_ptr + (if rgba then 4 else 3) * xsize \<le> a \<longrightarrow>
            apply_writes (U8_loop fe tg upper rgba row_in_r row_in_g row_in_b row_in_a base_ptr
                            xsize (RoundUpTo xsize (Lanes_capped4 tg)) x) m a = m a)"
  using d
proof (induction "RoundUpTo xsize (Lanes_capped4 tg) - x" arbitrary: x m rule: less_induct)
  case less
  define L where "L = Lanes_capped4 tg"
  define x1 where "x1 = RoundUpTo xsize L"
  define bytes :: nat where "bytes = (if rgba then 4 else 3)"
  have Lpos: "0 < L" "L \<le> 4" using Lanes_capped4_cases [of tg] by (auto simp: L_def)
  have bytes: "bytes = 3 \<or> bytes = 4" by (simp add: bytes_def)
  show ?case
  proof (cases "x < x1")
    case False
    then have e: "U8_loop fe tg upper rgba row_in_r row_in_g row_in_b row_in_a base_ptr xsize x1 x = []"
      by (rule U8_loop_done)
    have "\<not> x < xsize"
    proof
      assume "x < xsize"
      have "xsize \<le> x1"
        using Lanes_capped4_cases [of tg] unfolding x1_def L_def RoundUpTo_def by auto
      with \<open>x < xsize\<close> False show False by simp
    qed
    with e show ?thesis unfolding x1_def L_def by (simp add: apply_writes_Nil)
  next
    case True
    have xs: "x < xsize" using less.prems True unfolding x1_def L_def by (rule RoundUpTo_bound)
    define n where "n = xsize - x"
    define nn where "nn = min L n"
    define buf where "buf = base_ptr + bytes * x"
    define vs where "vs = [lanes_u8 fe tg (upper x 0) (Some row_in_r) x,
       lanes_u8 fe tg (upper x 1) (Some row_in_g) x,
       lanes_u8 fe tg (upper x 2) (Some row_in_b) x,
       lanes_u8 fe tg (upper x 3) row_in_a x]"
    define ws1 where "ws1 = StoreRGBA tg (vs ! 0) (vs ! 1) (vs ! 2) (vs ! 3) rgba nn n buf"
    define rest where "rest = U8_loop fe tg upper rgba row_in_r row_in_g row_in_b row_in_a base_ptr
       xsize x1 (x + L)"
    define m1 where "m1 = apply_writes ws1 m"
    have unfold: "U8_loop fe tg upper rgba row_in_r row_in_g row_in_b row_in_a base_ptr xsize x1 x =
        ws1 @ rest"
      using U8_loop_unfold [OF True, of fe tg upper rgba row_in_r row_in_g row_in_b row_in_a
          base_ptr xsize]
      by (simp add: ws1_def rest_def vs_def nn_def n_def buf_def bytes_def L_def)
    have res: "\<And>a. apply_writes (ws1 @ rest) m a = apply_writes rest m1 a"
      by (simp add: apply_writes_append m1_def)
    have n1: "1 \<le> nn" "nn \<le> 8" "nn \<le> L" "nn \<le> n"
      using xs Lpos by (auto simp: nn_def n_def)
    have "L dvd x + L" using less.prems by (simp add: L_def)
    moreover have "x1 - (x + L) < x1 - x" using True Lpos by simp
    ultimately have IH:
      "(\<forall>p k. x + L \<le> p \<longrightarrow> p < xsize \<longrightarrow> k < bytes \<longrightarrow>
          apply_writes rest m1 (base_ptr + (bytes * p + k)) =
          expected_byte fe row_in_r row_in_g row_in_b row_in_a k p) \<and>
       (\<forall>a. a < base_ptr + bytes * (x + L) \<or> base_ptr + bytes * xsize \<le> a \<longrightarrow>
          apply_writes rest m1 a = m1 a)"
      using less.hyps [of "x + L" m1]
      unfolding rest_def x1_def L_def bytes_def by simp
    have IHf: "apply_writes rest m1 a = m1 a"
      if "a < base_ptr + bytes * (x + L) \<or> base_ptr + bytes * xsize \<le> a" for a
      using IH that by blast
    have vs4: "[vs ! 0, vs ! 1, vs ! 2, vs ! 3] = vs" by (simp add: vs_def)
    have value_here: "apply_writes rest m1 (base_ptr + (bytes * p + k)) =
        expected_byte fe row_in_r row_in_g row_in_b row_in_a k p"
      if p: "x \<le> p" "p < xsize" "p < x + L" and k: "k < bytes" for p k
    proof -
      define i where "i = p - x"
      have i: "i < nn" "i < L" "p = x + i" using p by (auto simp: i_def nn_def n_def)
      have addr: "base_ptr + (bytes * p + k) = buf + (bytes * i + k)"
        using i by (simp add: buf_def algebra_simps)
      have "bytes * p + k < bytes * (x + L)"
      proof -
        have "Suc p \<le> x + L" using p by simp
        then have "bytes * Suc p \<le> bytes * (x + L)" by (rule mult_le_mono2)
        with k show ?thesis by simp
      qed
      then have "base_ptr + (bytes * p + k) < base_ptr + bytes * (x + L)" by simp
      then have "apply_writes rest m1 (base_ptr + (bytes * p + k)) =
          m1 (base_ptr + (bytes * p + k))"
        by (intro IHf disjI1)
      also have "\<dots> = apply_writes ws1 m (buf + (bytes * i + k))"
        by (simp add: m1_def addr)
      also have "\<dots> = [vs ! 0, vs ! 1, vs ! 2, vs ! 3] ! k ! i"
        unfolding ws1_def bytes_def
      proof (rule StoreRGBA_value)
        show "i < nn" by (rule i)
        show "k < (if rgba then 4 else 3)" using k by (simp add: bytes_def)
        show "nn \<le> Lanes_capped4 tg" using n1 by (simp add: L_def)
      qed
      also have "\<dots> = expected_byte fe row_in_r row_in_g row_in_b row_in_a k (x + i)"
        unfolding vs4 unfolding vs_def
      proof (rule lanes_vec_nth)
        show "i < Lanes_capped4 tg" using i by (simp add: L_def)
        show "k < 4" using k bytes by auto
      qed
      finally show ?thesis using i by simp
    qed
    have frame_here: "apply_writes rest m1 a = m a"
      if a: "a < base_ptr + bytes * x \<or> base_ptr + bytes * xsize \<le> a" for a
    proof -
      have "bytes * x \<le> bytes * (x + L)" by simp
      then have "base_ptr + bytes * x \<le> base_ptr + bytes * (x + L)" by simp
      with a have "a < base_ptr + bytes * (x + L) \<or> base_ptr + bytes * xsize \<le> a"
        by (meson less_le_trans)
      then have "apply_writes rest m1 a = m1 a" by (rule IHf)
      also have "\<dots> = m a"
        unfolding m1_def ws1_def
      proof (rule StoreRGBA_frame)
        show "1 \<le> nn" "nn \<le> 8" by (rule n1)+
        have st: "stored_lanes tg nn n \<le> n" using n1 by (simp add: stored_lanes_def)
        have "bytes * stored_lanes tg nn n \<le> bytes * n" using st by (rule mult_le_mono2)
        moreover have "bytes * x + bytes * n = bytes * xsize"
          using xs by (simp add: n_def flip: distrib_left)
        ultimately have "bytes * x + bytes * stored_lanes tg nn n \<le> bytes * xsize"
          by linarith
        then have "buf + bytes * stored_lanes tg nn n \<le> base_ptr + bytes * xsize"
          by (simp add: buf_def)
        with a show "a < buf \<or> buf + (if rgba then 4 else 3) * stored_lanes tg nn n \<le> a"
          by (auto simp: buf_def bytes_def)
      qed
      finally show ?thesis .
    qed
    have part1: "\<forall>p k. x \<le> p \<longrightarrow> p < xsize \<longrightarrow> k < bytes \<longrightarrow>
        apply_writes (ws1 @ rest) m (base_ptr + (bytes * p + k)) =
        expected_byte fe row_in_r row_in_g row_in_b row_in_a k p"
    proof (intro allI impI)
      fix p k assume p: "x \<le> p" "p < xsize" and k: "k < bytes"
      show "apply_writes (ws1 @ rest) m (base_ptr + (bytes * p + k)) =
        expected_byte fe row_in_r row_in_g row_in_b row_in_a k p"
      proof (cases "p < x + L")
        case True
        with p k show ?thesis by (simp add: res value_here)
      next
        case False
        then have "x + L \<le> p" by simp
        with p k IH have "apply_writes rest m1 (base_ptr + (bytes * p + k)) =
            expected_byte fe row_in_r row_in_g row_in_b row_in_a k p" by blast
        then show ?thesis by (simp add: res)
      qed
    qed
    have part2: "\<forall>a. a < base_ptr + bytes * x \<or> base_ptr + bytes * xsize \<le> a \<longrightarrow>
        apply_writes (ws1 @ rest) m a = m a"
      by (simp add: res frame_here)
    from part1 part2 show ?thesis
      unfolding unfold [symmetric] x1_def L_def bytes_def by blast
  qed
qed

lemma U8_narrow: "0 \<le> i \<Longrightarrow> i \<le> 255 \<Longrightarrow> uint (U8FromU32 (BitCast_u32 i)) = i"
  by (simp add: U8FromU32_def BitCast_u32_def uint_word_of_int take_bit_eq_mod unsigned_ucast_eq)

lemma Clamp_Finite: "Clamp fe (Finite 0) (Finite x) (Finite 1) = Finite (min (max x 0) 1)"
  by (simp add: Clamp_def Max_f32_def Min_f32_def min_def max_def)

lemma Clamp_Inf:
  "Clamp fe (Finite 0) PosInf (Finite 1) = Finite 1"
  "Clamp fe (Finite 0) NegInf (Finite 1) = Finite 0"
  by (simp_all add: Clamp_def Max_f32_def Min_f32_def)

lemma NearestInt_Finite:
  "- (2 ^ 31) \<le> round_half_even y \<Longrightarrow> round_half_even y < 2 ^ 31 \<Longrightarrow>
   NearestInt fe (Finite y) = round_half_even y"
  by (simp add: NearestInt_def Let_def)

lemma NearestInt_small:
  assumes "0 \<le> y" "y \<le> of_int n" "n < 2 ^ 31"
  shows "NearestInt fe (Finite y) = round_half_even y"
    and "0 \<le> round_half_even y" and "round_half_even y \<le> n"
proof -
  show lo: "0 \<le> round_half_even y" using rhe_lower [of 0 y] assms(1) by simp
  show hi: "round_half_even y \<le> n" using assms(2) by (rule rhe_upper)
  show "NearestInt fe (Finite y) = round_half_even y"
    using lo hi assms(3) by (intro NearestInt_Finite) auto
qed

lemma scaled_sample:
  assumes "0 \<le> c" "c \<le> 1" "0 \<le> n" "n < 2 ^ 24"
  shows "\<exists>y. Mul (Finite c) (Finite (of_int n)) = Finite y \<and> 0 \<le> y \<and> y \<le> of_int n \<and>
             \<bar>y - c * of_int n\<bar> \<le> pow2 (- 1)"
proof -
  have b: "0 \<le> c * of_int n" "c * of_int n \<le> of_int n"
    using assms by (simp_all add: mult_left_le_one_le)
  from round_f32_range [OF b assms(4)]
  obtain y where y: "round_f32 (c * of_int n) = Finite y" "0 \<le> y" "y \<le> of_int n" by blast
  have "c * of_int n < of_int (2 ^ 24)"
    using b(2) assms(4) by (meson le_less_trans of_int_less_iff)
  then have "\<bar>c * of_int n\<bar> < pow2 (0 + 24)" using b(1) by (simp add: pow2_def)
  from round_f32_error [OF _ _ this] y(1) have "\<bar>y - c * of_int n\<bar> \<le> pow2 0 / 2" by auto
  then have "\<bar>y - c * of_int n\<bar> \<le> pow2 (- 1)" by (simp add: pow2_def)
  with y show ?thesis by auto
qed

lemma scaled_255:
  assumes "0 \<le> c" "c \<le> 1"
  shows "\<exists>y. Mul (Finite c) (Finite 255) = Finite y \<and> 0 \<le> y \<and> y \<le> 255 \<and>
             \<bar>y - c * 255\<bar> \<le> 1 / 2 ^ 17"
proof -
  from scaled_sample [OF assms, of 255]
  obtain y where y: "Mul (Finite c) (Finite 255) = Finite y" "0 \<le> y" "y \<le> 255" by auto
  have "\<bar>c * 255\<bar> < pow2 (- 16 + 24)" using assms by (simp add: pow2_def)
  from round_f32_error [OF _ _ this] y(1) have "\<bar>y - c * 255\<bar> \<le> pow2 (- 16) / 2" by auto
  then have "\<bar>y - c * 255\<bar> \<le> 1 / 2 ^ 17" by (simp add: pow2_def)
  with y show ?thesis by auto
qed

lemma to_u8_Finite:
  "\<exists>y. Mul (Finite (min (max x 0) 1)) (Finite 255) = Finite y \<and>
       \<bar>y - min (max x 0) 1 * 255\<bar> \<le> 1 / 2 ^ 17 \<and>
       uint (to_u8 fe (Finite x)) = round_half_even y \<and>
       \<bar>of_int (round_half_even y) - y\<bar> \<le> 1 / 2"
proof -
  have c: "0 \<le> min (max x 0) 1" "min (max x 0) 1 \<le> 1" by simp_all
  from scaled_255 [OF c]
  obtain y where y: "Mul (Finite (min (max x 0) 1)) (Finite 255) = Finite y" "0 \<le> y"
    "y \<le> 255" "\<bar>y - min (max x 0) 1 * 255\<bar> \<le> 1 / 2 ^ 17" by auto
  have n: "NearestInt fe (Finite y) = round_half_even y" "0 \<le> round_half_even y"
    "round_half_even y \<le> 255"
    using NearestInt_small [of y 255] y(2,3) by simp_all
  have "uint (to_u8 fe (Finite x)) = round_half_even y"
    unfolding to_u8_def Clamp_Finite y(1) n(1) using n(2,3) by (rule U8_narrow)
  with y rhe_nearest [of y] show ?thesis by blast
qed

lemma to_u8_exact:
  assumes "0 \<le> c" "c \<le> 1" "round_f32 (c * 255) = Finite (c * 255)"
  shows "uint (to_u8 fe (Finite c)) = round_half_even (c * 255)"
proof -
  have m: "min (max c 0) 1 = c" using assms by simp
  from to_u8_Finite [of c fe] show ?thesis using assms(3) by (auto simp: m)
qed

lemma opaque_u8_255: "opaque_u8 fe = 255"
proof -
  have "round_half_even 255 = 255" using rhe_of_int [of 255] by simp
  then have "NearestInt fe (Finite 255) = 255" by (simp add: NearestInt_def)
  then show ?thesis by (simp add: opaque_u8_def U8FromU32_def BitCast_u32_def)
qed

lemma U8_ProcessRow_mem:
  fixes st :: WriteToU8Stage and input_rows :: RowInfo and xextra xsize xpos ypos :: nat
  assumes y: "ypos < height_u8 st"
  defines "bytes \<equiv> (if rgba_u8 st then 4 else 3)"
  defines "base_ptr \<equiv> ypos * stride_u8 st + bytes * to_size_t (int xpos - int xextra)"
  defines "row_in_a \<equiv> (if has_alpha_u8 st then Some (input_rows (alpha_c_u8 st)) else None)"
  shows "p < xsize \<Longrightarrow> k < bytes \<Longrightarrow>
           apply_writes (U8_ProcessRow fe tg upper st input_rows xextra xsize xpos ypos) m
             (base_ptr + (bytes * p + k)) =
           expected_byte fe (input_rows 0) (input_rows 1) (input_rows 2) row_in_a k p"
    and "a < base_ptr \<or> base_ptr + bytes * xsize \<le> a \<Longrightarrow>
           apply_writes (U8_ProcessRow fe tg upper st input_rows xextra xsize xpos ypos) m a = m a"
proof -
  have e: "U8_ProcessRow fe tg upper st input_rows xextra xsize xpos ypos =
      U8_loop fe tg upper (rgba_u8 st) (input_rows 0) (input_rows 1) (input_rows 2) row_in_a
        base_ptr xsize (RoundUpTo xsize (Lanes_capped4 tg)) 0"
    using y by (simp add: U8_ProcessRow_def Let_def GetInputRow_def bytes_def base_ptr_def
        row_in_a_def)
  have d: "Lanes_capped4 tg dvd 0" by simp
  note L = U8_loop_mem [OF d, of xsize "rgba_u8 st" fe upper "input_rows 0" "input_rows 1"
      "input_rows 2" row_in_a base_ptr m, folded bytes_def e]
  show "p < xsize \<Longrightarrow> k < bytes \<Longrightarrow>
           apply_writes (U8_ProcessRow fe tg upper st input_rows xextra xsize xpos ypos) m
             (base_ptr + (bytes * p + k)) =
           expected_byte fe (input_rows 0) (input_rows 1) (input_rows 2) row_in_a k p"
    using L by blast
  show "a < base_ptr \<or> base_ptr + bytes * xsize \<le> a \<Longrightarrow>
           apply_writes (U8_ProcessRow fe tg upper st input_rows xextra xsize xpos ypos) m a = m a"
    using L by (simp add: base_ptr_def) blast
qed

lemma U8_ProcessRow_no_alpha_rows:
  assumes "\<not> has_alpha_u8 st" and "\<And>c. c < 3 \<Longrightarrow> input_rows' c = input_rows c"
  shows "U8_ProcessRow fe tg upper st input_rows' xextra xsize xpos ypos =
         U8_ProcessRow fe tg upper st input_rows xextra xsize xpos ypos"
  using assms by (simp add: U8_ProcessRow_def GetInputRow_def Let_def)

subsection \<open>C5: alpha defaults to opaque\<close>

text \<open>
  Claim C5. For a RawBufferSink row call with \<open>has_alpha = false\<close> and \<open>rgba = true\<close>, the
  alpha byte written for every pixel of the row is 255; the writes of the call are the
  same for any two inputs that agree on the three colour rows, so no alpha row is read;
  and every channel from index 3 on is reported as ignored.
\<close>
theorem RawBufferSink_alpha_default:
  assumes na: "\<not> has_alpha_u8 st" and rgba: "rgba_u8 st"
    and y: "ypos < height_u8 st" and p: "p < xsize"
  shows "apply_writes (U8_ProcessRow fe tg upper st input_rows xextra xsize xpos ypos) buf
           (ypos * stride_u8 st + 4 * to_size_t (int xpos - int xextra) + (4 * p + 3)) = 255 \<and>
         ((\<forall>c<3. input_rows' c = input_rows c) \<longrightarrow>
            U8_ProcessRow fe tg upper st input_rows' xextra xsize xpos ypos =
            U8_ProcessRow fe tg upper st input_rows xextra xsize xpos ypos) \<and>
         (3 \<le> c \<longrightarrow> U8_GetChannelMode st c = kIgnored)"
proof (intro conjI impI)
  have "apply_writes (U8_ProcessRow fe tg upper st input_rows xextra xsize xpos ypos) buf
      (ypos * stride_u8 st + (if rgba_u8 st then 4 else 3) * to_size_t (int xpos - int xextra) +
        ((if rgba_u8 st then 4 else 3) * p + 3)) =
      expected_byte fe (input_rows 0) (input_rows 1) (input_rows 2)
        (if has_alpha_u8 st then Some (input_rows (alpha_c_u8 st)) else None) 3 p"
    using p rgba by (intro U8_ProcessRow_mem(1) [OF y]) simp_all
  then show "apply_writes (U8_ProcessRow fe tg upper st input_rows xextra xsize xpos ypos) buf
           (ypos * stride_u8 st + 4 * to_size_t (int xpos - int xextra) + (4 * p + 3)) = 255"
    using na rgba by (simp add: expected_byte_def opaque_u8_255)
next
  assume "\<forall>c<3. input_rows' c = input_rows c"
  then show "U8_ProcessRow fe tg upper st input_rows' xextra xsize xpos ypos =
            U8_ProcessRow fe tg upper st input_rows xextra xsize xpos ypos"
    using na by (intro U8_ProcessRow_no_alpha_rows) simp_all
next
  assume "3 \<le> c"
  then show "U8_GetChannelMode st c = kIgnored"
    using na by (simp add: U8_GetChannelMode_def)
qed

theorem RawBufferSink_alpha_default_witness:
  "apply_writes
     (U8_ProcessRow demo_target HWY_OTHER (\<lambda>x k i. 0)
        \<lparr>stride_u8 = 16, height_u8 = 2, rgba_u8 = True, has_alpha_u8 = False, alpha_c_u8 = 3\<rparr>
        (\<lambda>c i. if c = 3 then Finite (1 / 8) else Finite (1 / 2)) 0 3 1 1)
     (\<lambda>a. 0) 31 = 255 \<and>
   U8_ProcessRow demo_target HWY_OTHER (\<lambda>x k i. 0)
        \<lparr>stride_u8 = 16, height_u8 = 2, rgba_u8 = True, has_alpha_u8 = False, alpha_c_u8 = 3\<rparr>
        (\<lambda>c i. Finite (1 / 2)) 0 3 1 1 =
   U8_ProcessRow demo_target HWY_OTHER (\<lambda>x k i. 0)
        \<lparr>stride_u8 = 16, height_u8 = 2, rgba_u8 = True, has_alpha_u8 = False, alpha_c_u8 = 3\<rparr>
        (\<lambda>c i. if c = 3 then Finite (1 / 8) else Finite (1 / 2)) 0 3 1 1 \<and>
   U8_GetChannelMode
        \<lparr>stride_u8 = 16, height_u8 = 2, rgba_u8 = True, has_alpha_u8 = False, alpha_c_u8 = 3\<rparr> 3
     = kIgnored"
  using RawBufferSink_alpha_default [where st =
      "\<lparr>stride_u8 = 16, height_u8 = 2, rgba_u8 = True, has_alpha_u8 = False, alpha_c_u8 = 3\<rparr>"
      and ypos = 1 and p = 2 and xsize = 3 and fe = demo_target and tg = HWY_OTHER
      and upper = "\<lambda>x k i. 0"
      and input_rows = "\<lambda>c i. if c = 3 then Finite (1 / 8) else Finite (1 / 2)"
      and xextra = 0 and xpos = 1 and buf = "\<lambda>a. 0" and input_rows' = "\<lambda>c i. Finite (1 / 2)"
      and c = 3]
  by (simp add: to_size_t_def)

lemma round_f32_scaled:
  "round_f32 0 = Finite 0" "round_f32 (255 / 2) = Finite (255 / 2)"
  "round_f32 255 = Finite 255" "round_f32 (255 / 4) = Finite (255 / 4)"
  using round_f32_exact [of 0 0] round_f32_exact [of 255 "- 1"] round_f32_exact [of 255 0]
    round_f32_exact [of 255 "- 2"]
  by (simp_all add: pow2_def)

lemma to_u8_values:
  "to_u8 fe (Finite 0) = 0" "to_u8 fe (Finite (1 / 2)) = 128" "to_u8 fe (Finite 1) = 255"
  "to_u8 fe (Finite (1 / 4)) = 64"
proof -
  have "uint (to_u8 fe (Finite 0)) = 0"
    using to_u8_exact [of 0 fe] by (simp add: round_f32_scaled round_half_even_def)
  then show "to_u8 fe (Finite 0) = 0" by (simp add: word_uint_eq_iff)
  have "uint (to_u8 fe (Finite (1 / 2))) = 128"
    using to_u8_exact [of "1 / 2" fe] by (simp add: round_f32_scaled round_half_even_def)
  then show "to_u8 fe (Finite (1 / 2)) = 128" by (simp add: word_uint_eq_iff)
  have "uint (to_u8 fe (Finite 1)) = 255"
    using to_u8_exact [of 1 fe] by (simp add: round_f32_scaled round_half_even_def)
  then show "to_u8 fe (Finite 1) = 255" by (simp add: word_uint_eq_iff)
  have "uint (to_u8 fe (Finite (1 / 4))) = 64"
    using to_u8_exact [of "1 / 4" fe] by (simp add: round_f32_scaled round_half_even_def)
  then show "to_u8 fe (Finite (1 / 4)) = 64" by (simp add: word_uint_eq_iff)
qed

lemma to_u8_tie: "to_u8 fe (Finite (8421505 / 4294967296)) = 0"
proof -
  have r: "round_f32 (2147483775 / 4294967296) = Finite (1 / 2)"
    using round_f32_normal [where e = "- 24" and x = "2147483775 / 4294967296"]
    by (simp add: pow2_def round_half_even_def)
  have "Clamp fe (Finite 0) (Finite (8421505 / 4294967296)) (Finite 1) =
      Finite (8421505 / 4294967296)"
    by (simp add: Clamp_Finite)
  then show ?thesis
    by (simp add: to_u8_def r NearestInt_def round_half_even_def U8FromU32_def BitCast_u32_def)
qed

lemma to_u8_Inf: "to_u8 fe PosInf = 255" "to_u8 fe NegInf = 0"
proof -
  have "round_half_even 255 = 255" "round_half_even 0 = 0"
    using rhe_of_int [of 255] rhe_of_int [of 0] by simp_all
  then show "to_u8 fe PosInf = 255" "to_u8 fe NegInf = 0"
    using round_f32_scaled
    by (simp_all add: to_u8_def Clamp_Inf NearestInt_def U8FromU32_def BitCast_u32_def)
qed

lemma U8_ProcessRow_colour:
  assumes y: "ypos < height_u8 st" and p: "p < xsize" and k: "k < 3"
  shows "apply_writes (U8_ProcessRow fe tg upper st input_rows xextra xsize xpos ypos) buf
           (ypos * stride_u8 st +
              (if rgba_u8 st then 4 else 3) * to_size_t (int xpos - int xextra) +
              ((if rgba_u8 st then 4 else 3) * p + k)) =
         to_u8 fe (input_rows k (int p))"
proof -
  have "apply_writes (U8_ProcessRow fe tg upper st input_rows xextra xsize xpos ypos) buf
           (ypos * stride_u8 st +
              (if rgba_u8 st then 4 else 3) * to_size_t (int xpos - int xextra) +
              ((if rgba_u8 st then 4 else 3) * p + k)) =
        expected_byte fe (input_rows 0) (input_rows 1) (input_rows 2)
          (if has_alpha_u8 st then Some (input_rows (alpha_c_u8 st)) else None) k p"
    using p k by (intro U8_ProcessRow_mem(1) [OF y]) simp_all
  also have "\<dots> = to_u8 fe (input_rows k (int p))"
    using lt3_cases [OF k] by (auto simp: expected_byte_def)
  finally show ?thesis .
qed

lemma U8_ProcessRow_alpha:
  assumes y: "ypos < height_u8 st" and p: "p < xsize"
    and a: "rgba_u8 st" "has_alpha_u8 st"
  shows "apply_writes (U8_ProcessRow fe tg upper st input_rows xextra xsize xpos ypos) buf
           (ypos * stride_u8 st + 4 * to_size_t (int xpos - int xextra) + (4 * p + 3)) =
         to_u8 fe (input_rows (alpha_c_u8 st) (int p))"
proof -
  have "apply_writes (U8_ProcessRow fe tg upper st input_rows xextra xsize xpos ypos) buf
           (ypos * stride_u8 st +
              (if rgba_u8 st then 4 else 3) * to_size_t (int xpos - int xextra) +
              ((if rgba_u8 st then 4 else 3) * p + 3)) =
        expected_byte fe (input_rows 0) (input_rows 1) (input_rows 2)
          (if has_alpha_u8 st then Some (input_rows (alpha_c_u8 st)) else None) 3 p"
    using p a by (intro U8_ProcessRow_mem(1) [OF y]) simp_all
  then show ?thesis using a by (simp add: expected_byte_def)
qed

lemma tile_scenario:
  fixes rows_a rows_b :: RowInfo and fe :: float_target and tg :: hwy_target and upper :: "nat \<Rightarrow> nat \<Rightarrow> nat \<Rightarrow> u8"
    and buf :: buffer
  assumes r0: "rows_a 0 0 = Finite 0" "rows_a 0 1 = Finite (1 / 2)"
    and r1: "rows_b 0 0 = Finite 1" "rows_b 0 1 = Finite (1 / 4)"
    and a0: "rows_a 3 0 = Finite 1" "rows_a 3 1 = Finite 1"
    and a1: "rows_b 3 0 = Finite 1" "rows_b 3 1 = Finite 1"
  defines "out \<equiv> apply_writes (U8_ProcessRow fe tg upper tile_sink rows_b 0 2 0 1)
                   (apply_writes (U8_ProcessRow fe tg upper tile_sink rows_a 0 2 0 0) buf)"
  shows "map out [0, 4, 8, 12] = [0, 128, 255, 64] \<and>
         map out [3, 7, 11, 15] = [255, 255, 255, 255]"
proof -
  define mid where "mid = apply_writes (U8_ProcessRow fe tg upper tile_sink rows_a 0 2 0 0) buf"
  have s: "stride_u8 tile_sink = 8" "height_u8 tile_sink = 2" "rgba_u8 tile_sink"
    "has_alpha_u8 tile_sink" "alpha_c_u8 tile_sink = 3"
    by (simp_all add: tile_sink_def)
  have z: "to_size_t 0 = 0" by (simp add: to_size_t_def)
  have c0: "mid (4 * p + k) = to_u8 fe (rows_a k (int p))" if "p < 2" "k < 3" for p k
    using U8_ProcessRow_colour [of 0 tile_sink p 2 k fe tg upper rows_a 0 0 buf] that
    by (simp add: s z mid_def)
  have al0: "mid (4 * p + 3) = to_u8 fe (rows_a 3 (int p))" if "p < 2" for p
    using U8_ProcessRow_alpha [of 0 tile_sink p 2 fe tg upper rows_a 0 0 buf] that
    by (simp add: s z mid_def)
  have c1: "out (8 + (4 * p + k)) = to_u8 fe (rows_b k (int p))" if "p < 2" "k < 3" for p k
    using U8_ProcessRow_colour [of 1 tile_sink p 2 k fe tg upper rows_b 0 0 mid] that
    by (simp add: s z out_def mid_def)
  have al1: "out (8 + (4 * p + 3)) = to_u8 fe (rows_b 3 (int p))" if "p < 2" for p
    using U8_ProcessRow_alpha [of 1 tile_sink p 2 fe tg upper rows_b 0 0 mid] that
    by (simp add: s z out_def mid_def)
  have keep: "out a = mid a" if "a < 8" for a
    using U8_ProcessRow_mem(2) [of 1 tile_sink a 0 0 2 fe tg upper rows_b mid] that
    by (simp add: s z out_def mid_def)
  have "out 0 = 0" using keep [of 0] c0 [of 0 0] by (simp add: r0 to_u8_values)
  moreover have "out 4 = 128" using keep [of 4] c0 [of 1 0] by (simp add: r0 to_u8_values)
  moreover have "out 8 = 255" using c1 [of 0 0] by (simp add: r1 to_u8_values)
  moreover have "out 12 = 64" using c1 [of 1 0] by (simp add: r1 to_u8_values)
  moreover have "out 3 = 255" using keep [of 3] al0 [of 0] by (simp add: a0 to_u8_values)
  moreover have "out 7 = 255" using keep [of 7] al0 [of 1] by (simp add: a0 to_u8_values)
  moreover have "out 11 = 255" using al1 [of 0] by (simp add: a1 to_u8_values)
  moreover have "out 15 = 255" using al1 [of 1] by (simp add: a1 to_u8_values)
  ultimately show ?thesis by simp
qed

subsection \<open>C2: clamp, scale, round, narrow\<close>

text \<open>
  Claim C2. After a RawBufferSink row call, the byte of colour channel \<open>k\<close> of pixel \<open>p\<close>
  is the input sample clamped to \<open>[0, 1]\<close>, multiplied by 255, rounded to the nearest
  integer and narrowed to eight bits, and with an alpha plane the alpha byte is converted
  the same way. The product is the binary32 product. For a finite sample it differs from
  the exact product by at most \<open>2 ^ - 17\<close>, the integer is the one nearest to it, ties
  to even, and the narrowing loses nothing; the infinities convert to 255 and 0. The
  sample \<open>8421505 / 2 ^ 32\<close>, whose exact product with 255 lies just above one half while
  its binary32 product is one half, converts to 0. In particular, for the 2 by 2 RGBA
  tile with red samples 0, 0.5, 1 and 0.25 and alpha 1 throughout, written with stride 8
  and height 2, the red bytes are 0, 128, 255, 64 and the alpha bytes are all 255.
\<close>
theorem RawBufferSink_conversion:
  "(ypos < height_u8 st \<and> p < xsize \<and> k < 3 \<longrightarrow>
      apply_writes (U8_ProcessRow fe tg upper st input_rows xextra xsize xpos ypos) buf
        (ypos * stride_u8 st +
           (if rgba_u8 st then 4 else 3) * to_size_t (int xpos - int xextra) +
           ((if rgba_u8 st then 4 else 3) * p + k)) =
      to_u8 fe (input_rows k (int p))) \<and>
   (ypos < height_u8 st \<and> p < xsize \<and> rgba_u8 st \<and> has_alpha_u8 st \<longrightarrow>
      apply_writes (U8_ProcessRow fe tg upper st input_rows xextra xsize xpos ypos) buf
        (ypos * stride_u8 st + 4 * to_size_t (int xpos - int xextra) + (4 * p + 3)) =
      to_u8 fe (input_rows (alpha_c_u8 st) (int p))) \<and>
   Clamp fe (Finite 0) (Finite x) (Finite 1) = Finite (min (max x 0) 1) \<and>
   (\<exists>y. Mul (Finite (min (max x 0) 1)) (Finite 255) = Finite y \<and>
        \<bar>y - min (max x 0) 1 * 255\<bar> \<le> 1 / 2 ^ 17 \<and>
        uint (to_u8 fe (Finite x)) = round_half_even y \<and>
        \<bar>of_int (round_half_even y) - y\<bar> \<le> 1 / 2) \<and>
   to_u8 fe PosInf = 255 \<and> to_u8 fe NegInf = 0 \<and>
   to_u8 fe (Finite (8421505 / 4294967296)) = 0 \<and>
   (rows_a 0 0 = Finite 0 \<and> rows_a 0 1 = Finite (1 / 2) \<and>
    rows_b 0 0 = Finite 1 \<and> rows_b 0 1 = Finite (1 / 4) \<and>
    rows_a 3 0 = Finite 1 \<and> rows_a 3 1 = Finite 1 \<and>
    rows_b 3 0 = Finite 1 \<and> rows_b 3 1 = Finite 1 \<longrightarrow>
      map (apply_writes (U8_ProcessRow fe' tg' upper' tile_sink rows_b 0 2 0 1)
             (apply_writes (U8_ProcessRow fe' tg' upper' tile_sink rows_a 0 2 0 0) buf'))
          [0, 4, 8, 12] = [0, 128, 255, 64] \<and>
      map (apply_writes (U8_ProcessRow fe' tg' upper' tile_sink rows_b 0 2 0 1)
             (apply_writes (U8_ProcessRow fe' tg' upper' tile_sink rows_a 0 2 0 0) buf'))
          [3, 7, 11, 15] = [255, 255, 255, 255])"
proof (intro conjI impI)
  assume "ypos < height_u8 st \<and> p < xsize \<and> k < 3"
  then show "apply_writes (U8_ProcessRow fe tg upper st input_rows xextra xsize xpos ypos) buf
        (ypos * stride_u8 st +
           (if rgba_u8 st then 4 else 3) * to_size_t (int xpos - int xextra) +
           ((if rgba_u8 st then 4 else 3) * p + k)) =
      to_u8 fe (input_rows k (int p))"
    by (intro U8_ProcessRow_colour) simp_all
next
  assume "ypos < height_u8 st \<and> p < xsize \<and> rgba_u8 st \<and> has_alpha_u8 st"
  then show "apply_writes (U8_ProcessRow fe tg upper st input_rows xextra xsize xpos ypos) buf
        (ypos * stride_u8 st + 4 * to_size_t (int xpos - int xextra) + (4 * p + 3)) =
      to_u8 fe (input_rows (alpha_c_u8 st) (int p))"
    by (intro U8_ProcessRow_alpha) simp_all
next
  show "Clamp fe (Finite 0) (Finite x) (Finite 1) = Finite (min (max x 0) 1)"
    by (rule Clamp_Finite)
next
  show "\<exists>y. Mul (Finite (min (max x 0) 1)) (Finite 255) = Finite y \<and>
        \<bar>y - min (max x 0) 1 * 255\<bar> \<le> 1 / 2 ^ 17 \<and>
        uint (to_u8 fe (Finite x)) = round_half_even y \<and>
        \<bar>of_int (round_half_even y) - y\<bar> \<le> 1 / 2"
    by (rule to_u8_Finite)
next
  show "to_u8 fe PosInf = 255" "to_u8 fe NegInf = 0" by (rule to_u8_Inf)+
next
  show "to_u8 fe (Finite (8421505 / 4294967296)) = 0" by (rule to_u8_tie)
next
  assume a: "rows_a 0 0 = Finite 0 \<and> rows_a 0 1 = Finite (1 / 2) \<and>
    rows_b 0 0 = Finite 1 \<and> rows_b 0 1 = Finite (1 / 4) \<and>
    rows_a 3 0 = Finite 1 \<and> rows_a 3 1 = Finite 1 \<and>
    rows_b 3 0 = Finite 1 \<and> rows_b 3 1 = Finite 1"
  then have "map (apply_writes (U8_ProcessRow fe' tg' upper' tile_sink rows_b 0 2 0 1)
             (apply_writes (U8_ProcessRow fe' tg' upper' tile_sink rows_a 0 2 0 0) buf'))
          [0, 4, 8, 12] = [0, 128, 255, 64] \<and>
      map (apply_writes (U8_ProcessRow fe' tg' upper' tile_sink rows_b 0 2 0 1)
             (apply_writes (U8_ProcessRow fe' tg' upper' tile_sink rows_a 0 2 0 0) buf'))
          [3, 7, 11, 15] = [255, 255, 255, 255]"
    by (intro tile_scenario) simp_all
  then show "map (apply_writes (U8_ProcessRow fe' tg' upper' tile_sink rows_b 0 2 0 1)
             (apply_writes (U8_ProcessRow fe' tg' upper' tile_sink rows_a 0 2 0 0) buf'))
          [0, 4, 8, 12] = [0, 128, 255, 64]"
    and "map (apply_writes (U8_ProcessRow fe' tg' upper' tile_sink rows_b 0 2 0 1)
             (apply_writes (U8_ProcessRow fe' tg' upper' tile_sink rows_a 0 2 0 0) buf'))
          [3, 7, 11, 15] = [255, 255, 255, 255]"
    by simp_all
qed

theorem RawBufferSink_conversion_witness:
  "map (apply_writes
          (U8_ProcessRow demo_target HWY_NEON (\<lambda>x k i. 7) tile_sink
             (\<lambda>c i. if c = 0 then (if i = 0 then Finite 1 else Finite (1 / 4)) else Finite 1)
             0 2 0 1)
          (apply_writes
             (U8_ProcessRow demo_target HWY_NEON (\<lambda>x k i. 7) tile_sink
                (\<lambda>c i. if c = 0 then (if i = 0 then Finite 0 else Finite (1 / 2)) else Finite 1)
                0 2 0 0)
             (\<lambda>a. 0)))
     [0, 4, 8, 12] = [0, 128, 255, 64] \<and>
   apply_writes
     (U8_ProcessRow demo_target HWY_NEON (\<lambda>x k i. 7) tile_sink
        (\<lambda>c i. if c = 0 then (if i = 0 then Finite 0 else Finite (1 / 2)) else Finite 1)
        0 2 0 0)
     (\<lambda>a. 0) 4 = to_u8 demo_target (Finite (1 / 2))"
  using RawBufferSink_conversion [where fe' = demo_target and tg' = HWY_NEON
      and upper' = "\<lambda>x k i. 7"
      and rows_a = "\<lambda>c i. if c = 0 then (if i = 0 then Finite 0 else Finite (1 / 2)) else Finite 1"
      and rows_b = "\<lambda>c i. if c = 0 then (if i = 0 then Finite 1 else Finite (1 / 4)) else Finite 1"
      and buf' = "\<lambda>a. 0" and fe = demo_target and tg = HWY_NEON and upper = "\<lambda>x k i. 7"
      and st = tile_sink
      and input_rows =
        "\<lambda>c i. if c = 0 then (if i = 0 then Finite 0 else Finite (1 / 2)) else Finite 1"
      and xextra = 0 and xsize = 2 and xpos = 0 and ypos = 0 and p = 1 and k = 0
      and buf = "\<lambda>a. 0" and x = 0]
  by (simp add: tile_sink_def to_size_t_def)

section \<open>Properties of the callback setup and of the frame sinks\<close>

lemma CB_PrepareForThreads_null:
  assumes "cb_Init (pixel_callback_cb st) num_threads kMaxPixelsPerCall = None"
  shows "CB_PrepareForThreads num_threads st = (False, st\<lparr>run_opaque_cb := None\<rparr>)"
  using assms by (simp add: CB_PrepareForThreads_def Let_def)

subsection \<open>C6: a null handle from \<^verbatim>\<open>Init\<close> fails the setup\<close>

text \<open>
  Claim C6. If the callback object's \<^verbatim>\<open>Init\<close> returns the null handle, then
  \<^verbatim>\<open>PrepareForThreads\<close> returns failure and allocates no scratch; the decode that runs
  the sink ends with an error, and its trace of callback events is the single \<^verbatim>\<open>Init\<close>
  invocation: no row is processed, and the setup is not attempted a second time.
\<close>
theorem PixelCallbackSink_init_failure:
  assumes "cb_Init (pixel_callback_cb st) num_threads kMaxPixelsPerCall = None"
  shows "fst (CB_PrepareForThreads num_threads st) = False \<and>
         tempf_cb (snd (CB_PrepareForThreads num_threads st)) = tempf_cb st \<and>
         tempu_cb (snd (CB_PrepareForThreads num_threads st)) = tempu_cb st \<and>
         run_callback_sink fe kSmallAlpha num_threads st reqs =
           (DecodeError, [InitCalled num_threads kMaxPixelsPerCall])"
  using assms
  by (simp add: CB_PrepareForThreads_null run_callback_sink_def CB_destructor_def)

theorem PixelCallbackSink_init_failure_witness:
  "fst (CB_PrepareForThreads 4
          (GetWriteToPixelCallbackStage \<lparr>cb_Init = (\<lambda>n m. None)\<rparr> 8 4 4 True False 3 False
             kIdentity JXL_TYPE_UINT8)) = False \<and>
   run_callback_sink demo_target (Finite (1 / 1024)) 4
     (GetWriteToPixelCallbackStage \<lparr>cb_Init = (\<lambda>n m. None)\<rparr> 8 4 4 True False 3 False
        kIdentity JXL_TYPE_UINT8)
     [\<lparr>req_input_rows = (\<lambda>c i. Finite (1 / 2)), req_xextra = 0, req_xsize = 8, req_xpos = 0,
       req_ypos = 0, req_thread_id = 0\<rparr>] =
   (DecodeError, [InitCalled 4 1024])"
  using PixelCallbackSink_init_failure [of
      "GetWriteToPixelCallbackStage \<lparr>cb_Init = (\<lambda>n m. None)\<rparr> 8 4 4 True False 3 False
         kIdentity JXL_TYPE_UINT8" 4
      "demo_target" "Finite (1 / 1024)"
      "[\<lparr>req_input_rows = (\<lambda>c i. Finite (1 / 2)), req_xextra = 0, req_xsize = 8, req_xpos = 0,
        req_ypos = 0, req_thread_id = 0\<rparr>]"]
  by (simp add: GetWriteToPixelCallbackStage_def kMaxPixelsPerCall_def)

lemma upt_3: "[0..<3] = [0, 1, 2]"
  by (simp add: upt_rec)

lemma memcpy_row_copied:
  "j < n \<Longrightarrow> memcpy_row dst d src s n (d + int j) = src (s + int j)"
  by (simp add: memcpy_row_def)

lemma I3F_ProcessRow_copied:
  assumes c: "c < 3" and j: "j < xsize + 2 * xextra"
  shows "PlaneRow (I3F_ProcessRow img input_rows xextra xsize xpos ypos) c ypos
           (int xpos - int xextra + int j) = input_rows c (- int xextra + int j)"
  using lt3_cases [OF c] j
  by (auto simp: I3F_ProcessRow_def upt_3 copy_plane_row_def memcpy_row_copied GetInputRow_def)

lemma copy_extra_row_xsize:
  "plane_xsize (copy_extra_row pl input_rows xextra xsize xpos ypos ec) = plane_xsize pl"
  by (simp add: copy_extra_row_def)

lemma IB_extra_loop_ok:
  assumes "distinct ecs"
    and "\<And>ec. ec \<in> set ecs \<Longrightarrow> ec < length (extra_channels ib)"
    and "\<And>ec. ec \<in> set ecs \<Longrightarrow> xpos + xsize + xextra \<le> plane_xsize (extra_channels ib ! ec)"
  shows "\<exists>ib'. IB_extra_loop input_rows xextra xsize xpos ypos ecs ib = Inr ib' \<and>
           color ib' = color ib \<and>
           length (extra_channels ib') = length (extra_channels ib) \<and>
           (\<forall>ec < length (extra_channels ib).
              extra_channels ib' ! ec =
                (if ec \<in> set ecs
                 then copy_extra_row (extra_channels ib ! ec) input_rows xextra xsize xpos ypos ec
                 else extra_channels ib ! ec))"
  using assms
proof (induction ecs arbitrary: ib)
  case Nil
  then show ?case by simp
next
  case (Cons e ecs)
  define ib1 where "ib1 = ib\<lparr>extra_channels := (extra_channels ib)
     [e := copy_extra_row (extra_channels ib ! e) input_rows xextra xsize xpos ypos e]\<rparr>"
  have e: "e < length (extra_channels ib)" "e \<notin> set ecs"
    "xpos + xsize + xextra \<le> plane_xsize (extra_channels ib ! e)"
    using Cons.prems by auto
  have len1: "length (extra_channels ib1) = length (extra_channels ib)"
    by (simp add: ib1_def)
  have nth1: "extra_channels ib1 ! ec = extra_channels ib ! ec" if "ec \<noteq> e" for ec
    using that by (simp add: ib1_def)
  have step: "IB_extra_loop input_rows xextra xsize xpos ypos (e # ecs) ib =
      IB_extra_loop input_rows xextra xsize xpos ypos ecs ib1"
    using e by (simp add: ib1_def)
  have "\<exists>ib'. IB_extra_loop input_rows xextra xsize xpos ypos ecs ib1 = Inr ib' \<and>
           color ib' = color ib1 \<and>
           length (extra_channels ib') = length (extra_channels ib1) \<and>
           (\<forall>ec < length (extra_channels ib1).
              extra_channels ib' ! ec =
                (if ec \<in> set ecs
                 then copy_extra_row (extra_channels ib1 ! ec) input_rows xextra xsize xpos ypos ec
                 else extra_channels ib1 ! ec))"
  proof (rule Cons.IH)
    show "distinct ecs" using Cons.prems(1) by simp
    show "ec < length (extra_channels ib1)" if "ec \<in> set ecs" for ec
      using that Cons.prems(2) len1 by simp
    show "xpos + xsize + xextra \<le> plane_xsize (extra_channels ib1 ! ec)" if "ec \<in> set ecs" for ec
    proof -
      from that e have "ec \<noteq> e" by auto
      with that Cons.prems(3) show ?thesis by (simp add: nth1)
    qed
  qed
  then obtain ib' where r: "IB_extra_loop input_rows xextra xsize xpos ypos ecs ib1 = Inr ib'"
    and c: "color ib' = color ib1"
    and l: "length (extra_channels ib') = length (extra_channels ib1)"
    and n: "\<And>ec. ec < length (extra_channels ib1) \<Longrightarrow>
              extra_channels ib' ! ec =
                (if ec \<in> set ecs
                 then copy_extra_row (extra_channels ib1 ! ec) input_rows xextra xsize xpos ypos ec
                 else extra_channels ib1 ! ec)"
    by blast
  have "\<forall>ec < length (extra_channels ib).
          extra_channels ib' ! ec =
            (if ec \<in> set (e # ecs)
             then copy_extra_row (extra_channels ib ! ec) input_rows xextra xsize xpos ypos ec
             else extra_channels ib ! ec)"
  proof (intro allI impI)
    fix ec assume ec: "ec < length (extra_channels ib)"
    show "extra_channels ib' ! ec =
            (if ec \<in> set (e # ecs)
             then copy_extra_row (extra_channels ib ! ec) input_rows xextra xsize xpos ypos ec
             else extra_channels ib ! ec)"
    proof (cases "ec = e")
      case True
      with e n [of e] len1 show ?thesis by (simp add: ib1_def)
    next
      case False
      with ec n [of ec] len1 show ?thesis by (simp add: nth1)
    qed
  qed
  with r c l step len1 show ?case by (simp add: ib1_def)
qed

lemma copy_extra_row_copied:
  "j < xsize + 2 * xextra \<Longrightarrow>
   plane_Row (copy_extra_row pl input_rows xextra xsize xpos ypos ec) ypos
     (int xpos - int xextra + int j) = input_rows (3 + ec) (- int xextra + int j)"
  by (simp add: copy_extra_row_def memcpy_row_copied GetInputRow_def)

subsection \<open>C9: the frame sinks copy rows unchanged\<close>

text \<open>
  Claim C9. A row call of PlanarBufferSink or of FrameBufferSink copies, for every channel,
  the \<open>xsize + 2 * xextra\<close> input samples starting \<open>xextra\<close> before the row pointer to the
  target row \<open>ypos\<close> starting at column \<open>xpos - xextra\<close>: each target sample in that range
  equals the input sample, border samples included, whatever the sample is. The
  FrameBufferSink call returns normally when every extra channel is at least
  \<open>xpos + xsize + xextra\<close> wide, and then copies the extra channels in the same way.
\<close>
theorem copy_sinks_exact:
  assumes j: "j < xsize + 2 * xextra"
  shows "(c < 3 \<longrightarrow>
            PlaneRow (I3F_ProcessRow img input_rows xextra xsize xpos ypos) c ypos
              (int xpos - int xextra + int j) = input_rows c (- int xextra + int j)) \<and>
         ((\<forall>e < length (extra_channels ib).
              xpos + xsize + xextra \<le> plane_xsize (extra_channels ib ! e)) \<longrightarrow>
          (\<exists>ib'. IB_ProcessRow ib input_rows xextra xsize xpos ypos = Inr ib' \<and>
             length (extra_channels ib') = length (extra_channels ib) \<and>
             (c < 3 \<longrightarrow>
                PlaneRow (color ib') c ypos (int xpos - int xextra + int j) =
                input_rows c (- int xextra + int j)) \<and>
             (ec < length (extra_channels ib) \<longrightarrow>
                plane_Row (extra_channels ib' ! ec) ypos (int xpos - int xextra + int j) =
                input_rows (3 + ec) (- int xextra + int j))))"
proof (intro conjI impI)
  assume "c < 3"
  then show "PlaneRow (I3F_ProcessRow img input_rows xextra xsize xpos ypos) c ypos
              (int xpos - int xextra + int j) = input_rows c (- int xextra + int j)"
    using j by (rule I3F_ProcessRow_copied)
next
  assume xs: "\<forall>e < length (extra_channels ib).
              xpos + xsize + xextra \<le> plane_xsize (extra_channels ib ! e)"
  define ib1 where "ib1 = ib\<lparr>color := I3F_ProcessRow (color ib) input_rows xextra xsize xpos ypos\<rparr>"
  have ex1: "extra_channels ib1 = extra_channels ib" by (simp add: ib1_def)
  have "\<exists>ib'. IB_extra_loop input_rows xextra xsize xpos ypos
                 [0..<length (extra_channels ib1)] ib1 = Inr ib' \<and>
           color ib' = color ib1 \<and>
           length (extra_channels ib') = length (extra_channels ib1) \<and>
           (\<forall>e < length (extra_channels ib1).
              extra_channels ib' ! e =
                (if e \<in> set [0..<length (extra_channels ib1)]
                 then copy_extra_row (extra_channels ib1 ! e) input_rows xextra xsize xpos ypos e
                 else extra_channels ib1 ! e))"
    using xs by (intro IB_extra_loop_ok) (simp_all add: ex1)
  then obtain ib' where
    r: "IB_extra_loop input_rows xextra xsize xpos ypos [0..<length (extra_channels ib1)] ib1 =
          Inr ib'"
    and col: "color ib' = color ib1"
    and len: "length (extra_channels ib') = length (extra_channels ib1)"
    and nth: "\<And>e. e < length (extra_channels ib1) \<Longrightarrow>
                extra_channels ib' ! e =
                  copy_extra_row (extra_channels ib1 ! e) input_rows xextra xsize xpos ypos e"
    by auto
  have run: "IB_ProcessRow ib input_rows xextra xsize xpos ypos = Inr ib'"
    using r by (simp add: IB_ProcessRow_def Let_def ib1_def)
  have colour: "PlaneRow (color ib') c ypos (int xpos - int xextra + int j) =
                input_rows c (- int xextra + int j)" if "c < 3"
    using that j by (simp add: col ib1_def I3F_ProcessRow_copied)
  have extra: "plane_Row (extra_channels ib' ! ec) ypos (int xpos - int xextra + int j) =
                input_rows (3 + ec) (- int xextra + int j)" if "ec < length (extra_channels ib)"
    using that j nth [of ec] by (simp add: ex1 copy_extra_row_copied)
  show "\<exists>ib'. IB_ProcessRow ib input_rows xextra xsize xpos ypos = Inr ib' \<and>
             length (extra_channels ib') = length (extra_channels ib) \<and>
             (c < 3 \<longrightarrow>
                PlaneRow (color ib') c ypos (int xpos - int xextra + int j) =
                input_rows c (- int xextra + int j)) \<and>
             (ec < length (extra_channels ib) \<longrightarrow>
                plane_Row (extra_channels ib' ! ec) ypos (int xpos - int xextra + int j) =
                input_rows (3 + ec) (- int xextra + int j))"
    using run len ex1 colour extra by auto
qed

theorem copy_sinks_exact_witness:
  "PlaneRow (I3F_ProcessRow demo_image demo_rows 1 4 2 1) 2 1 6 = Finite (2 + 4 / 8) \<and>
   (\<exists>ib'. IB_ProcessRow demo_bundle demo_rows 1 4 2 1 = Inr ib' \<and>
      length (extra_channels ib') = 1 \<and>
      PlaneRow (color ib') 2 1 6 = Finite (2 + 4 / 8) \<and>
      plane_Row (extra_channels ib' ! 0) 1 6 = Finite (3 + 4 / 8))"
  using copy_sinks_exact [of 5 4 1 2 demo_image demo_rows 2 1 demo_bundle 0]
  by (simp add: demo_rows_def demo_bundle_def)

section \<open>Properties of PixelCallbackSink\<close>

lemma length_swap_at: "length (swap_at i j xs) = length xs"
  by (simp add: swap_at_def)

lemma swap_at_nth:
  "i < length xs \<Longrightarrow> j < length xs \<Longrightarrow> k < length xs \<Longrightarrow>
   swap_at i j xs ! k = (if k = j then xs ! i else if k = i then xs ! j else xs ! k)"
  by (simp add: swap_at_def nth_list_update)

lemma swap_channels:
  assumes "a + m \<le> b" and "b + m \<le> length t"
  shows "length (foldl (\<lambda>t c. swap_at (a + c) (b + c) t) t [0..<m]) = length t \<and>
         (\<forall>i < length t.
            foldl (\<lambda>t c. swap_at (a + c) (b + c) t) t [0..<m] ! i =
              (if a \<le> i \<and> i < a + m then t ! (b + (i - a))
               else if b \<le> i \<and> i < b + m then t ! (a + (i - b))
               else t ! i))"
  using assms
proof (induction m)
  case 0
  then show ?case by auto
next
  case (Suc m)
  define T where "T = foldl (\<lambda>t c. swap_at (a + c) (b + c) t) t [0..<m]"
  have IH: "length T = length t"
    "\<And>i. i < length t \<Longrightarrow> T ! i =
       (if a \<le> i \<and> i < a + m then t ! (b + (i - a))
        else if b \<le> i \<and> i < b + m then t ! (a + (i - b))
        else t ! i)"
    using Suc unfolding T_def by auto
  have step: "foldl (\<lambda>t c. swap_at (a + c) (b + c) t) t [0..<Suc m] =
      swap_at (a + m) (b + m) T"
    by (simp add: T_def)
  have bounds: "a + m < length T" "b + m < length T" "a + m < b"
    using Suc.prems IH(1) by auto
  have Ta: "T ! (a + m) = t ! (a + m)" using IH(2) [of "a + m"] bounds IH(1) by simp
  have Tb: "T ! (b + m) = t ! (b + m)" using IH(2) [of "b + m"] bounds IH(1) by simp
  show ?case
  proof (intro conjI allI impI)
    show "length (foldl (\<lambda>t c. swap_at (a + c) (b + c) t) t [0..<Suc m]) = length t"
      unfolding step by (simp add: length_swap_at IH(1))
  next
    fix i assume i: "i < length t"
    then have iT: "i < length T" by (simp add: IH(1))
    have "swap_at (a + m) (b + m) T ! i =
        (if i = b + m then T ! (a + m) else if i = a + m then T ! (b + m) else T ! i)"
      using bounds(1,2) iT by (rule swap_at_nth)
    also have "\<dots> = (if a \<le> i \<and> i < a + Suc m then t ! (b + (i - a))
               else if b \<le> i \<and> i < b + Suc m then t ! (a + (i - b))
               else t ! i)"
      using bounds Ta Tb IH(2) [OF i] by auto
    finally show "foldl (\<lambda>t c. swap_at (a + c) (b + c) t) t [0..<Suc m] ! i =
              (if a \<le> i \<and> i < a + Suc m then t ! (b + (i - a))
               else if b \<le> i \<and> i < b + Suc m then t ! (a + (i - b))
               else t ! i)"
      unfolding step .
  qed
qed

lemma pixel_index_less: "q < k \<Longrightarrow> c < nc \<Longrightarrow> q * nc + c < k * (nc::nat)"
proof -
  assume q: "q < k" and c: "c < nc"
  then have "Suc q * nc \<le> k * nc" by (intro mult_le_mono1) simp
  with c show ?thesis by simp
qed

lemma pixel_index_inj:
  "c < nc \<Longrightarrow> c' < nc \<Longrightarrow> q * nc + c = q' * nc + c' \<Longrightarrow> q = q' \<and> c = (c'::nat)"
proof -
  assume c: "c < nc" "c' < nc" and e: "q * nc + c = q' * nc + c'"
  have "q = q'"
  proof (rule ccontr)
    assume "q \<noteq> q'"
    then consider "q < q'" | "q' < q" by arith
    then show False
    proof cases
      case 1
      then have "q * nc + c < q' * nc" using c by (intro pixel_index_less)
      with e show False by simp
    next
      case 2
      then have "q' * nc + c' < q * nc" using c by (intro pixel_index_less)
      with e show False by simp
    qed
  qed
  with e show ?thesis by simp
qed

lemma FlipX_flip_pixels: "FlipX nc xlen temp = flip_pixels nc xlen (xlen div 2) temp"
  by (simp add: FlipX_def flip_pixels_def Let_def)

lemma flip_pixels_nth:
  assumes len: "length temp = xlen * nc" and k: "k \<le> xlen div 2"
  shows "length (flip_pixels nc xlen k temp) = xlen * nc \<and>
         (\<forall>q c. q < xlen \<longrightarrow> c < nc \<longrightarrow>
            flip_pixels nc xlen k temp ! (q * nc + c) =
              (if q < k \<or> xlen - k \<le> q then temp ! ((xlen - 1 - q) * nc + c)
               else temp ! (q * nc + c)))"
  using k
proof (induction k)
  case 0
  then show ?case by (simp add: flip_pixels_def len)
next
  case (Suc k)
  define T where "T = flip_pixels nc xlen k temp"
  have IH: "length T = xlen * nc"
    "\<And>q c. q < xlen \<Longrightarrow> c < nc \<Longrightarrow>
       T ! (q * nc + c) = (if q < k \<or> xlen - k \<le> q then temp ! ((xlen - 1 - q) * nc + c)
                           else temp ! (q * nc + c))"
    using Suc unfolding T_def by auto
  define a where "a = k * nc"
  define b where "b = (xlen - 1 - k) * nc"
  have kk: "k < xlen - 1 - k" "k < xlen" "xlen - 1 - k < xlen" using Suc.prems by auto
  have b_alt: "(xlen - Suc 0) * nc - k * nc = b" by (simp add: b_def diff_mult_distrib)
  have step: "flip_pixels nc xlen (Suc k) temp =
      foldl (\<lambda>t c. swap_at (a + c) (b + c) t) T [0..<nc]"
    by (simp add: flip_pixels_def T_def Let_def a_def b_alt)
  have ab: "a + nc \<le> b"
  proof -
    have "Suc k * nc \<le> (xlen - 1 - k) * nc" using kk by (intro mult_le_mono1) simp
    then show ?thesis by (simp add: a_def b_def)
  qed
  have bl: "b + nc \<le> length T"
  proof -
    have "Suc (xlen - 1 - k) * nc \<le> xlen * nc" using kk by (intro mult_le_mono1) simp
    then show ?thesis by (simp add: b_def IH(1))
  qed
  note sw = swap_channels [OF ab bl]
  show ?case
  proof (intro conjI allI impI)
    show "length (flip_pixels nc xlen (Suc k) temp) = xlen * nc"
      unfolding step using sw IH(1) by simp
  next
    fix q c assume q: "q < xlen" and c: "c < nc"
    define i where "i = q * nc + c"
    have iT: "i < length T" unfolding i_def IH(1) using q c by (rule pixel_index_less)
    have in_a: "(a \<le> i \<and> i < a + nc) = (q = k)"
    proof
      assume h: "a \<le> i \<and> i < a + nc"
      show "q = k"
      proof (rule ccontr)
        assume "q \<noteq> k"
        then consider "q < k" | "k < q" by arith
        then show False
        proof cases
          case 1
          then have "i < a" unfolding i_def a_def using c by (intro pixel_index_less)
          with h show False by simp
        next
          case 2
          then have "Suc k * nc \<le> q * nc" by (intro mult_le_mono1) simp
          with h show False by (simp add: i_def a_def)
        qed
      qed
    next
      assume "q = k"
      with c show "a \<le> i \<and> i < a + nc" by (simp add: i_def a_def)
    qed
    have in_b: "(b \<le> i \<and> i < b + nc) = (q = xlen - 1 - k)"
    proof
      assume h: "b \<le> i \<and> i < b + nc"
      show "q = xlen - 1 - k"
      proof (rule ccontr)
        assume "q \<noteq> xlen - 1 - k"
        then consider "q < xlen - 1 - k" | "xlen - 1 - k < q" by arith
        then show False
        proof cases
          case 1
          then have "i < b" unfolding i_def b_def using c by (intro pixel_index_less)
          with h show False by simp
        next
          case 2
          then have "Suc (xlen - 1 - k) * nc \<le> q * nc" by (intro mult_le_mono1) simp
          with h show False by (simp add: i_def b_def)
        qed
      qed
    next
      assume "q = xlen - 1 - k"
      with c show "b \<le> i \<and> i < b + nc" by (simp add: i_def b_def)
    qed
    have "flip_pixels nc xlen (Suc k) temp ! i =
        (if a \<le> i \<and> i < a + nc then T ! (b + (i - a))
         else if b \<le> i \<and> i < b + nc then T ! (a + (i - b))
         else T ! i)"
      unfolding step using sw iT by blast
    also have "\<dots> = (if q = k then T ! ((xlen - 1 - k) * nc + c)
         else if q = xlen - 1 - k then T ! (k * nc + c)
         else T ! (q * nc + c))"
      unfolding in_a in_b by (auto simp: i_def a_def b_def)
    also have "\<dots> = (if q < Suc k \<or> xlen - Suc k \<le> q then temp ! ((xlen - 1 - q) * nc + c)
               else temp ! (q * nc + c))"
    proof (cases "q = k")
      case True
      have "\<not> (xlen - 1 - k < k \<or> xlen - k \<le> xlen - 1 - k)" using kk by arith
      then have "T ! ((xlen - 1 - k) * nc + c) = temp ! ((xlen - 1 - k) * nc + c)"
        using IH(2) [of "xlen - 1 - k" c] kk(3) c by simp
      with True show ?thesis by simp
    next
      case False
      note nk = False
      show ?thesis
      proof (cases "q = xlen - 1 - k")
        case True
        have "\<not> (k < k \<or> xlen - k \<le> k)" using kk by arith
        then have "T ! (k * nc + c) = temp ! (k * nc + c)"
          using IH(2) [of k c] kk(2) c by simp
        moreover have "xlen - 1 - (xlen - 1 - k) = k" using kk by simp
        ultimately show ?thesis using True nk kk by simp
      next
        case False
        have "(q < Suc k \<or> xlen - Suc k \<le> q) = (q < k \<or> xlen - k \<le> q)"
          using nk False kk by auto
        with nk False IH(2) [OF q c] show ?thesis by simp
      qed
    qed
    finally show "flip_pixels nc xlen (Suc k) temp ! (q * nc + c) =
              (if q < Suc k \<or> xlen - Suc k \<le> q then temp ! ((xlen - 1 - q) * nc + c)
               else temp ! (q * nc + c))"
      unfolding i_def .
  qed
qed

lemma FlipX_nth:
  assumes len: "length temp = xlen * nc" and q: "q < xlen" and c: "c < nc"
  shows "FlipX nc xlen temp ! (q * nc + c) = temp ! ((xlen - 1 - q) * nc + c)"
proof -
  have "FlipX nc xlen temp ! (q * nc + c) =
      (if q < xlen div 2 \<or> xlen - xlen div 2 \<le> q then temp ! ((xlen - 1 - q) * nc + c)
       else temp ! (q * nc + c))"
    unfolding FlipX_flip_pixels using flip_pixels_nth [OF len order_refl] q c by blast
  moreover have "xlen - 1 - q = q" if "\<not> (q < xlen div 2 \<or> xlen - xlen div 2 \<le> q)"
    using that q by arith
  ultimately show ?thesis by auto
qed

lemma length_FlipX: "length temp = xlen * nc \<Longrightarrow> length (FlipX nc xlen temp) = xlen * nc"
  unfolding FlipX_flip_pixels using flip_pixels_nth [OF _ order_refl] by blast

lemma list_eq_by_pixels:
  assumes "length xs = n * nc" and "length ys = n * nc"
    and "\<And>q c. q < n \<Longrightarrow> c < nc \<Longrightarrow> xs ! (q * nc + c) = ys ! (q * nc + c)"
  shows "xs = ys"
proof (rule nth_equalityI)
  show "length xs = length ys" using assms by simp
next
  fix i assume i: "i < length xs"
  show "xs ! i = ys ! i"
  proof (cases "nc = 0")
    case True
    with i assms show ?thesis by simp
  next
    case False
    then have "i mod nc < nc" by simp
    moreover have "i div nc < n" using i assms(1) False by (simp add: less_mult_imp_div_less)
    ultimately have "xs ! (i div nc * nc + i mod nc) = ys ! (i div nc * nc + i mod nc)"
      by (intro assms(3))
    then show ?thesis by simp
  qed
qed

lemma FlipX_concat:
  assumes len: "length px = xlen" and pix: "\<And>p. p \<in> set px \<Longrightarrow> length p = nc"
  shows "FlipX nc xlen (concat px) = concat (rev px)"
proof (rule list_eq_by_pixels [of _ xlen nc])
  have l: "length (concat px) = xlen * nc"
    using length_concat_uniform [of px nc] pix len by simp
  show "length (FlipX nc xlen (concat px)) = xlen * nc" using l by (rule length_FlipX)
  show "length (concat (rev px)) = xlen * nc"
    using length_concat_uniform [of "rev px" nc] pix len by simp
  fix q c assume q: "q < xlen" and c: "c < nc"
  have "FlipX nc xlen (concat px) ! (q * nc + c) = concat px ! ((xlen - 1 - q) * nc + c)"
    using l q c by (rule FlipX_nth)
  also have "\<dots> = px ! (xlen - 1 - q) ! c"
    using pix q c len by (intro nth_concat_uniform) auto
  also have "\<dots> = rev px ! q ! c"
    using q len by (simp add: rev_nth)
  also have "\<dots> = concat (rev px) ! (q * nc + c)"
    using pix q c len by (intro nth_concat_uniform [symmetric]) auto
  finally show "FlipX nc xlen (concat px) ! (q * nc + c) = concat (rev px) ! (q * nc + c)" .
qed

lemma gather_loop_closed:
  "ix \<le> kMaxPixelsPerCall \<Longrightarrow>
   gather_loop line_buffers nc x0 limit ix temp =
     (ix + min (kMaxPixelsPerCall - ix) (nat (limit - x0 - int ix)),
      temp @ concat (map (\<lambda>i. map (\<lambda>c. line_buffers c (int i)) [0..<nc])
                       [ix..<ix + min (kMaxPixelsPerCall - ix) (nat (limit - x0 - int ix))]))"
proof (induction line_buffers nc x0 limit ix temp rule: gather_loop.induct)
  case (1 line_buffers nc x0 limit ix temp)
  define k where "k = min (kMaxPixelsPerCall - ix) (nat (limit - x0 - int ix))"
  show ?case
  proof (cases "ix < kMaxPixelsPerCall \<and> int ix + x0 < limit")
    case True
    define k' where "k' = min (kMaxPixelsPerCall - (ix + 1)) (nat (limit - x0 - int (ix + 1)))"
    have kk: "k = Suc k'" using True by (auto simp: k_def k'_def min_def)
    have IH: "gather_loop line_buffers nc x0 limit (ix + 1)
          (temp @ map (\<lambda>c. line_buffers c (int ix)) [0..<nc]) =
        (ix + 1 + k',
         (temp @ map (\<lambda>c. line_buffers c (int ix)) [0..<nc]) @
         concat (map (\<lambda>i. map (\<lambda>c. line_buffers c (int i)) [0..<nc]) [ix + 1..<ix + 1 + k']))"
      using "1.IH" [OF True] True unfolding k'_def by simp
    have u: "[ix..<ix + k] = ix # [ix + 1..<ix + 1 + k']"
      unfolding kk by (simp add: upt_conv_Cons)
    have "gather_loop line_buffers nc x0 limit ix temp =
        gather_loop line_buffers nc x0 limit (ix + 1)
          (temp @ map (\<lambda>c. line_buffers c (int ix)) [0..<nc])"
      using True by (subst gather_loop.simps) simp
    also note IH
    finally show ?thesis unfolding k_def [symmetric] u by (simp add: kk)
  next
    case False
    then have k0: "k = 0" using "1.prems" by (auto simp: k_def min_def)
    have "gather_loop line_buffers nc x0 limit ix temp = (ix, temp)"
      using False by (subst gather_loop.simps) auto
    then show ?thesis unfolding k_def [symmetric] k0 by simp
  qed
qed

lemma gather_loop_start:
  "gather_loop line_buffers nc x0 limit 0 [] =
     (batch_len limit x0, concat (gathered_pixels line_buffers nc (batch_len limit x0)))"
  using gather_loop_closed [of 0 line_buffers nc x0 limit "[]"]
  by (simp add: batch_len_def gathered_pixels_def)

lemma batch_len_bounds:
  "batch_len limit x0 \<le> kMaxPixelsPerCall" "x0 < limit \<Longrightarrow> 1 \<le> batch_len limit x0"
  by (auto simp: batch_len_def kMaxPixelsPerCall_def)

lemma gathered_pixels_props:
  "length (gathered_pixels lb nc xlen) = xlen"
  "p \<in> set (gathered_pixels lb nc xlen) \<Longrightarrow> length p = nc"
  by (auto simp: gathered_pixels_def)

lemma drop_concat_uniform:
  "(\<And>p. p \<in> set px \<Longrightarrow> length p = n) \<Longrightarrow> drop (q * n) (concat px) = concat (drop q px)"
proof (induction px arbitrary: q)
  case Nil
  then show ?case by simp
next
  case (Cons p px)
  show ?case
  proof (cases q)
    case 0
    then show ?thesis by simp
  next
    case (Suc q')
    have "length p = n" using Cons.prems by simp
    moreover have "drop (q' * n) (concat px) = concat (drop q' px)"
      using Cons.prems by (intro Cons.IH) simp
    ultimately show ?thesis using Suc by simp
  qed
qed

lemma chunks_concat:
  assumes pix: "\<And>p. p \<in> set px \<Longrightarrow> length p = n" and n: "0 < n"
  shows "chunks n (concat px) = px"
proof (rule nth_equalityI)
  have l: "length (concat px) = length px * n" using pix by (rule length_concat_uniform)
  then show len: "length (chunks n (concat px)) = length px" using n by (simp add: chunks_def)
  fix q assume "q < length (chunks n (concat px))"
  with len have q: "q < length px" by simp
  then have "q < length (concat px) div n" using l n by simp
  then have "chunks n (concat px) ! q = take n (drop (q * n) (concat px))"
    by (simp add: chunks_def)
  also have "\<dots> = take n (concat (drop q px))"
    using pix by (simp add: drop_concat_uniform)
  also have "drop q px = px ! q # drop (Suc q) px" using q by (simp add: Cons_nth_drop_Suc)
  also have "take n (concat (px ! q # drop (Suc q) px)) = px ! q"
    using pix [of "px ! q"] q by simp
  finally show "chunks n (concat px) ! q = px ! q" .
qed

lemma UnpremultiplyAlpha_concat:
  assumes pix: "\<And>p. p \<in> set px \<Longrightarrow> length p = num_color + 1" and len: "length px = xlen"
  shows "UnpremultiplyAlpha kSmallAlpha (concat px) num_color xlen =
         concat (map (unpremultiply_pixel kSmallAlpha num_color) px)"
proof -
  have c: "chunks (num_color + 1) (concat px) = px" using pix by (intro chunks_concat) simp_all
  have l: "length (concat px) = xlen * (num_color + 1)"
    using length_concat_uniform [of px "num_color + 1"] pix len by simp
  show ?thesis unfolding UnpremultiplyAlpha_def c using l len by simp
qed

lemma length_unpremultiply_pixel:
  "length (unpremultiply_pixel kSmallAlpha num_color p) = length p"
  by (simp add: unpremultiply_pixel_def)

lemma stage_invariant_channels:
  assumes "stage_invariant st"
  shows "num_channels_cb st \<le> num_color_cb st + 1"
    and "want_alpha_cb st \<Longrightarrow> num_channels_cb st = num_color_cb st + 1"
    and "0 < num_channels_cb st"
  using assms by (auto simp: stage_invariant_def)

lemma process_batch_pixels:
  assumes inv: "stage_invariant st"
  shows "process_batch fe kSmallAlpha st thread_id xpos ypos limit line_buffers x0 =
         deliver_pixels fe kSmallAlpha st thread_id xpos ypos x0
           (gathered_pixels line_buffers (num_channels_cb st) (batch_len limit x0))"
proof -
  define nc where "nc = num_channels_cb st"
  define xlen where "xlen = batch_len limit x0"
  define px where "px = gathered_pixels line_buffers nc xlen"
  define un where "un = (has_alpha_cb st \<and> want_alpha_cb st \<and> unpremul_alpha_cb st)"
  define px1 where "px1 = (if un then map (unpremultiply_pixel kSmallAlpha (num_color_cb st)) px
                           else px)"
  have lpx: "length px = xlen" and ppx: "\<And>p. p \<in> set px \<Longrightarrow> length p = nc"
    by (auto simp: px_def gathered_pixels_props)
  have lpx1: "length px1 = xlen" using lpx by (simp add: px1_def)
  have ppx1: "length p = nc" if "p \<in> set px1" for p
    using that ppx by (cases un) (auto simp: px1_def length_unpremultiply_pixel)
  have t1: "(if un then UnpremultiplyAlpha kSmallAlpha (concat px) (num_color_cb st) xlen
             else concat px) = concat px1"
  proof (cases un)
    case True
    then have "nc = num_color_cb st + 1"
      using stage_invariant_channels(2) [OF inv] by (simp add: un_def nc_def)
    with ppx have "\<And>p. p \<in> set px \<Longrightarrow> length p = num_color_cb st + 1" by simp
    then show ?thesis using True lpx by (simp add: px1_def UnpremultiplyAlpha_concat)
  next
    case False
    then show ?thesis by (simp add: px1_def)
  qed
  have t2: "(if flip_x_cb st then FlipX nc xlen (concat px1) else concat px1) =
      concat (if flip_x_cb st then rev px1 else px1)"
    using FlipX_concat [OF lpx1 ppx1] by simp
  show ?thesis
    unfolding process_batch_def gather_loop_start
    apply (simp only: split_conv Let_def)
    unfolding nc_def [symmetric] xlen_def [symmetric] px_def [symmetric] un_def [symmetric]
    unfolding t1 t2
    using lpx
    by (auto simp: deliver_pixels_def Let_def batch_xstart_def px1_def un_def nc_def xlen_def
        px_def split: option.split)
qed

lemma lb_at_init:
  assumes inv: "stage_invariant st"
  shows "lb_at st input_rows (init_line_buffers st input_rows xextra) (- int xextra)"
proof -
  have o: "opaque_alpha_cb st = replicate kMaxPixelsPerCall (Finite 1)"
    using inv by (simp add: stage_invariant_def)
  show ?thesis
    unfolding lb_at_def
  proof (intro allI impI)
    fix c assume c: "c \<le> num_color_cb st"
    show "if c < num_color_cb st \<or> has_alpha_cb st
        then \<forall>i. init_line_buffers st input_rows xextra c i =
                 source_sample st input_rows c (- int xextra + i)
        else \<forall>i. 0 \<le> i \<and> i < int kMaxPixelsPerCall \<longrightarrow>
                 init_line_buffers st input_rows xextra c i = Finite 1"
      using c
      by (auto simp: init_line_buffers_def source_sample_def ptr_add_def GetInputRow_def
          vec_data_def o)
  qed
qed

lemma lb_at_advance:
  assumes "lb_at st input_rows line_buffers x0"
  shows "lb_at st input_rows (advance_line_buffers st line_buffers) (x0 + int kMaxPixelsPerCall)"
  unfolding lb_at_def
proof (intro allI impI)
  fix c assume c: "c \<le> num_color_cb st"
  from assms c have h: "if c < num_color_cb st \<or> has_alpha_cb st
        then \<forall>i. line_buffers c i = source_sample st input_rows c (x0 + i)
        else \<forall>i. 0 \<le> i \<and> i < int kMaxPixelsPerCall \<longrightarrow> line_buffers c i = Finite 1"
    unfolding lb_at_def by blast
  show "if c < num_color_cb st \<or> has_alpha_cb st
        then \<forall>i. advance_line_buffers st line_buffers c i =
                 source_sample st input_rows c (x0 + int kMaxPixelsPerCall + i)
        else \<forall>i. 0 \<le> i \<and> i < int kMaxPixelsPerCall \<longrightarrow>
                 advance_line_buffers st line_buffers c i = Finite 1"
  proof (cases "c < num_color_cb st \<or> has_alpha_cb st")
    case True
    with h have "\<And>i. line_buffers c i = source_sample st input_rows c (x0 + i)" by simp
    moreover have "c < num_color_cb st \<or> (has_alpha_cb st \<and> c = num_color_cb st)"
      using True c by auto
    ultimately show ?thesis
      using True by (simp add: advance_line_buffers_def ptr_add_def add.assoc)
  next
    case False
    with h show ?thesis by (simp add: advance_line_buffers_def)
  qed
qed

lemma gathered_pixels_source:
  assumes inv: "stage_invariant st" and lb: "lb_at st input_rows line_buffers x0"
  shows "gathered_pixels line_buffers (num_channels_cb st) (batch_len limit x0) =
         batch_pixels st input_rows limit x0"
proof -
  have "line_buffers c (int i) = source_sample st input_rows c (x0 + int i)"
    if i: "i < batch_len limit x0" and c: "c < num_channels_cb st" for i c
  proof -
    have c': "c \<le> num_color_cb st" using c stage_invariant_channels(1) [OF inv] by simp
    have i': "int i < int kMaxPixelsPerCall" using i batch_len_bounds(1) [of limit x0] by simp
    from lb c' have h: "if c < num_color_cb st \<or> has_alpha_cb st
        then \<forall>i. line_buffers c i = source_sample st input_rows c (x0 + i)
        else \<forall>i. 0 \<le> i \<and> i < int kMaxPixelsPerCall \<longrightarrow> line_buffers c i = Finite 1"
      unfolding lb_at_def by blast
    show ?thesis
    proof (cases "c < num_color_cb st \<or> has_alpha_cb st")
      case True
      with h show ?thesis by simp
    next
      case False
      with h i' have "line_buffers c (int i) = Finite 1" by simp
      with False show ?thesis by (simp add: source_sample_def)
    qed
  qed
  then show ?thesis
    by (simp add: gathered_pixels_def batch_pixels_def source_pixel_def)
qed

lemma batch_loop_unfold:
  "x0 < limit \<Longrightarrow>
   batch_loop fe kSmallAlpha st thread_id xpos ypos limit line_buffers x0 =
     process_batch fe kSmallAlpha st thread_id xpos ypos limit line_buffers x0 @
     batch_loop fe kSmallAlpha st thread_id xpos ypos limit
       (advance_line_buffers st line_buffers) (x0 + int kMaxPixelsPerCall)"
  by (subst batch_loop.simps) simp

lemma batch_loop_done:
  "\<not> x0 < limit \<Longrightarrow>
   batch_loop fe kSmallAlpha st thread_id xpos ypos limit line_buffers x0 = []"
  by (subst batch_loop.simps) simp

lemma num_batches_step:
  "x0 < limit \<Longrightarrow> num_batches limit x0 = Suc (num_batches limit (x0 + 1024))"
  unfolding num_batches_def by (simp add: nat_eq_iff) linarith

lemma num_batches_zero: "\<not> x0 < limit \<Longrightarrow> num_batches limit x0 = 0"
  unfolding num_batches_def by simp

lemma batch_loop_closed:
  assumes inv: "stage_invariant st" and lb: "lb_at st input_rows line_buffers x0"
  shows "batch_loop fe kSmallAlpha st thread_id xpos ypos limit line_buffers x0 =
         concat (map (\<lambda>b. deliver_pixels fe kSmallAlpha st thread_id xpos ypos
                             (x0 + 1024 * int b)
                             (batch_pixels st input_rows limit (x0 + 1024 * int b)))
                   [0..<num_batches limit x0])"
  using lb
proof (induction "nat (limit - x0)" arbitrary: x0 line_buffers rule: less_induct)
  case less
  show ?case
  proof (cases "x0 < limit")
    case False
    then show ?thesis by (simp add: batch_loop_done num_batches_zero)
  next
    case True
    define n where "n = num_batches limit (x0 + 1024)"
    have nb: "num_batches limit x0 = Suc n" using True by (simp add: n_def num_batches_step)
    have first: "process_batch fe kSmallAlpha st thread_id xpos ypos limit line_buffers x0 =
        deliver_pixels fe kSmallAlpha st thread_id xpos ypos x0
          (batch_pixels st input_rows limit x0)"
      using process_batch_pixels [OF inv] gathered_pixels_source [OF inv less.prems] by simp
    have "nat (limit - (x0 + int kMaxPixelsPerCall)) < nat (limit - x0)"
      using True by (simp add: kMaxPixelsPerCall_def)
    moreover have "lb_at st input_rows (advance_line_buffers st line_buffers)
        (x0 + int kMaxPixelsPerCall)"
      using less.prems by (rule lb_at_advance)
    ultimately have rest: "batch_loop fe kSmallAlpha st thread_id xpos ypos limit
        (advance_line_buffers st line_buffers) (x0 + int kMaxPixelsPerCall) =
        concat (map (\<lambda>b. deliver_pixels fe kSmallAlpha st thread_id xpos ypos
                             (x0 + int kMaxPixelsPerCall + 1024 * int b)
                             (batch_pixels st input_rows limit
                                (x0 + int kMaxPixelsPerCall + 1024 * int b)))
                   [0..<num_batches limit (x0 + int kMaxPixelsPerCall)])"
      by (rule less.hyps)
    have shift: "x0 + int kMaxPixelsPerCall + 1024 * int b = x0 + 1024 * int (Suc b)" for b
      by (simp add: kMaxPixelsPerCall_def)
    have k: "x0 + int kMaxPixelsPerCall = x0 + 1024" by (simp add: kMaxPixelsPerCall_def)
    have u: "[0..<Suc n] = 0 # map Suc [0..<n]"
      by (simp add: upt_conv_Cons map_Suc_upt del: upt_Suc)
    show ?thesis
      unfolding batch_loop_unfold [OF True] first rest shift nb u
      unfolding k n_def [symmetric]
      by (simp add: comp_def)
  qed
qed

lemma to_size_t_id: "0 \<le> i \<Longrightarrow> i < 2 ^ 64 \<Longrightarrow> to_size_t i = nat i"
  by (simp add: to_size_t_def)

lemma to_ssize_t_id:
  assumes "- (2 ^ 63) \<le> i" and "i < 2 ^ 63"
  shows "to_ssize_t i = i"
proof (cases "0 \<le> i")
  case True
  with assms have "i mod 2 ^ 64 = i" by simp
  with assms show ?thesis by (simp add: to_ssize_t_def)
next
  case False
  have "(i + 2 ^ 64) mod 2 ^ 64 = i + 2 ^ 64"
    using assms False by (intro mod_pos_pos_trivial) simp_all
  then have "i mod 2 ^ 64 = i + 2 ^ 64" by simp
  with False assms show ?thesis by (simp add: to_ssize_t_def)
qed

lemma CB_ProcessRow_closed:
  assumes inv: "stage_invariant st" and y: "ypos < height_cb st" and x: "xextra < 2 ^ 63"
  shows "CB_ProcessRow fe kSmallAlpha st input_rows xextra xsize xpos ypos thread_id =
         concat (map (\<lambda>b. deliver_pixels fe kSmallAlpha st thread_id xpos (row_ypos st ypos)
                             (- int xextra + 1024 * int b)
                             (batch_pixels st input_rows (row_limit st xextra xsize xpos)
                                (- int xextra + 1024 * int b)))
                   [0..<num_batches (row_limit st xextra xsize xpos) (- int xextra)])"
proof -
  have x0: "to_ssize_t (- int xextra) = - int xextra"
    using x by (intro to_ssize_t_id) simp_all
  have "CB_ProcessRow fe kSmallAlpha st input_rows xextra xsize xpos ypos thread_id =
      batch_loop fe kSmallAlpha st thread_id xpos (row_ypos st ypos)
        (row_limit st xextra xsize xpos) (init_line_buffers st input_rows xextra) (- int xextra)"
    using y by (simp add: CB_ProcessRow_def Let_def row_ypos_def row_limit_def x0)
  also note batch_loop_closed [OF inv lb_at_init [OF inv]]
  finally show ?thesis .
qed

lemma stage_invariant_new:
  "num_channels \<in> {1, 2, 3, 4} \<Longrightarrow>
   stage_invariant (GetWriteToPixelCallbackStage pixel_callback width height num_channels
      has_alpha unpremul_alpha alpha_c swap_endianness undo_orientation data_type)"
  by (auto simp: stage_invariant_def GetWriteToPixelCallbackStage_def)

lemma FlipX_twice:
  assumes len: "length temp = xlen * nc"
  shows "FlipX nc xlen (FlipX nc xlen temp) = temp"
proof (rule list_eq_by_pixels [of _ xlen nc])
  have l1: "length (FlipX nc xlen temp) = xlen * nc" using len by (rule length_FlipX)
  then show "length (FlipX nc xlen (FlipX nc xlen temp)) = xlen * nc" by (rule length_FlipX)
  show "length temp = xlen * nc" by (rule len)
  fix q c assume q: "q < xlen" and c: "c < nc"
  have q': "xlen - 1 - q < xlen" using q by simp
  have "FlipX nc xlen (FlipX nc xlen temp) ! (q * nc + c) =
      FlipX nc xlen temp ! ((xlen - 1 - q) * nc + c)"
    using l1 q c by (rule FlipX_nth)
  also have "\<dots> = temp ! ((xlen - 1 - (xlen - 1 - q)) * nc + c)"
    using len q' c by (rule FlipX_nth)
  also have "xlen - 1 - (xlen - 1 - q) = q" using q by simp
  finally show "FlipX nc xlen (FlipX nc xlen temp) ! (q * nc + c) = temp ! (q * nc + c)" .
qed

lemma FlipX_xstart_twice:
  assumes "xstart < 2 ^ 64"
  shows "FlipX_xstart width (FlipX_xstart width xstart xlen) xlen = xstart"
proof -
  define w where "w = int width"
  define s where "s = int xstart"
  define l where "l = int xlen"
  have "(w - (w - s - l) mod 2 ^ 64 - l) mod 2 ^ 64 = (w - (w - s - l) - l) mod 2 ^ 64"
    by (metis mod_diff_left_eq mod_diff_right_eq)
  also have "\<dots> = s mod 2 ^ 64" by simp
  also have "\<dots> = s" using assms by (simp add: s_def)
  finally have "(w - (w - s - l) mod 2 ^ 64 - l) mod 2 ^ 64 = s" .
  moreover have "0 \<le> (w - s - l) mod 2 ^ 64" by simp
  ultimately show ?thesis
    by (simp add: FlipX_xstart_def to_size_t_def w_def s_def l_def)
qed

text \<open>
  The conversion to 16-bit integers rounds the binary32 product: the exact product of
  the sample \<open>196611 / 2 ^ 33\<close> with 65535 lies just below one and a half, its binary32
  product is one and a half, and the sample is delivered as 2.
\<close>

lemma convert_pixels_tie:
  "convert_pixels fe JXL_TYPE_UINT16 False [Finite (196611 / 8589934592)] = Some (U16s [2])"
proof -
  have r: "round_f32 (12884901885 / 8589934592) = Finite (3 / 2)"
    using round_f32_normal [where e = "- 23" and x = "12884901885 / 8589934592"]
    by (simp add: pow2_def round_half_even_def)
  show ?thesis
    by (simp add: convert_pixels_def Clamp_Finite r NearestInt_def round_half_even_def
          DemoteTo_u16_def)
qed

subsection \<open>C8: flipping twice restores the chunk\<close>

text \<open>
  Claim C8. Applying the horizontal flip of PixelCallbackSink to a chunk of \<open>xlen\<close> pixels
  and then applying it again gives back the original buffer, and mapping \<open>xstart\<close> to
  \<open>width - xstart - xlen\<close> twice gives back \<open>xstart\<close>, for every chunk length, channel
  count and buffer contents. One application reverses the order of the pixels and, for
  a chunk inside the row, reports the mirrored start \<open>width - xstart - xlen\<close>.
\<close>
theorem flip_x_twice_restores:
  "(length temp = xlen * num_channels \<longrightarrow>
      FlipX num_channels xlen (FlipX num_channels xlen temp) = temp) \<and>
   (xstart < 2 ^ 64 \<longrightarrow>
      FlipX_xstart width (FlipX_xstart width xstart xlen) xlen = xstart) \<and>
   (length px = xlen \<and> (\<forall>p \<in> set px. length p = num_channels) \<longrightarrow>
      FlipX num_channels xlen (concat px) = concat (rev px)) \<and>
   (xstart + xlen \<le> width \<and> width < 2 ^ 64 \<longrightarrow>
      FlipX_xstart width xstart xlen = width - xstart - xlen)"
proof (intro conjI impI)
  assume "length temp = xlen * num_channels"
  then show "FlipX num_channels xlen (FlipX num_channels xlen temp) = temp"
    by (rule FlipX_twice)
next
  assume "xstart < 2 ^ 64"
  then show "FlipX_xstart width (FlipX_xstart width xstart xlen) xlen = xstart"
    by (rule FlipX_xstart_twice)
next
  assume "length px = xlen \<and> (\<forall>p \<in> set px. length p = num_channels)"
  then show "FlipX num_channels xlen (concat px) = concat (rev px)"
    by (intro FlipX_concat) simp_all
next
  assume a: "xstart + xlen \<le> width \<and> width < 2 ^ 64"
  then have "int width - int xstart - int xlen = int (width - xstart - xlen)" by simp
  moreover have "int (width - xstart - xlen) < 2 ^ 64" using a by simp
  ultimately show "FlipX_xstart width xstart xlen = width - xstart - xlen"
    unfolding FlipX_xstart_def by (simp add: to_size_t_id del: of_nat_diff)
qed

theorem flip_x_twice_restores_witness:
  "FlipX 2 3 (FlipX 2 3 [10, 11, 20, 21, 30, 31 :: nat]) = [10, 11, 20, 21, 30, 31] \<and>
   FlipX_xstart 10 (FlipX_xstart 10 2 3) 3 = 2 \<and>
   FlipX 2 3 (concat [[10, 11], [20, 21], [30, 31 :: nat]]) = [30, 31, 20, 21, 10, 11] \<and>
   FlipX_xstart 10 2 3 = 5"
  using flip_x_twice_restores [of "[10, 11, 20, 21, 30, 31 :: nat]" 3 2 2 10
      "[[10, 11], [20, 21], [30, 31 :: nat]]"]
  by (simp add: FlipX_def FlipX_xstart_def to_size_t_def swap_at_def upt_rec)

lemma convert_pixels_Some:
  "\<exists>out. convert_pixels fe dt sw temp = Some out \<and> pixels_length out = length temp"
  by (cases dt) (simp_all add: convert_pixels_def Let_def)

lemma take_drop_take:
  assumes "i < xlen"
  shows "take nc (drop (i * nc) (take (xlen * nc) xs)) = take nc (drop (i * nc) xs)"
proof -
  have "Suc i * nc \<le> xlen * nc" using assms by (intro mult_le_mono1) simp
  then have m: "min nc (xlen * nc - i * nc) = nc" by simp
  show ?thesis by (simp add: drop_take m)
qed

lemma pixels_slice_slice:
  assumes "i < xlen"
  shows "pixels_slice (i * nc) nc (pixels_slice 0 (xlen * nc) out) = pixels_slice (i * nc) nc out"
  by (cases out) (simp_all add: take_drop_take [OF assms])

lemma WriteToCallback_transposed:
  "WriteToCallback (st\<lparr>transpose_cb := True\<rparr>) thread_id ypos xstart xlen out =
   concat (map (transposed_calls (num_channels_cb st))
             (WriteToCallback (st\<lparr>transpose_cb := False\<rparr>) thread_id ypos xstart xlen out))"
  by (simp add: WriteToCallback_def transposed_calls_def pixels_slice_slice)

lemma deliver_pixels_transposed:
  "deliver_pixels fe kSmallAlpha (st\<lparr>transpose_cb := True\<rparr>) thread_id xpos ypos x0 px =
   concat (map (transposed_calls (num_channels_cb st))
             (deliver_pixels fe kSmallAlpha (st\<lparr>transpose_cb := False\<rparr>) thread_id xpos ypos
                x0 px))"
proof -
  define px2 where "px2 =
    (let px1 = (if has_alpha_cb st \<and> want_alpha_cb st \<and> unpremul_alpha_cb st
                 then map (unpremultiply_pixel kSmallAlpha (num_color_cb st)) px else px)
     in if flip_x_cb st then rev px1 else px1)"
  obtain out where out: "convert_pixels fe (data_type_cb st) (swap_endianness_cb st) (concat px2)
      = Some out"
    using convert_pixels_Some by blast
  have bx: "batch_xstart (st\<lparr>transpose_cb := b\<rparr>) xpos x0 n = batch_xstart st xpos x0 n" for b n
    by (simp add: batch_xstart_def)
  have d: "deliver_pixels fe kSmallAlpha (st\<lparr>transpose_cb := b\<rparr>) thread_id xpos ypos x0 px =
      (case convert_pixels fe (data_type_cb st) (swap_endianness_cb st) (concat px2) of
         Some output \<Rightarrow> WriteToCallback (st\<lparr>transpose_cb := b\<rparr>) thread_id ypos
           (batch_xstart st xpos x0 (length px)) (length px) output
       | None \<Rightarrow> [])" for b
    unfolding deliver_pixels_def px2_def Let_def bx by simp
  show ?thesis unfolding d out by (simp add: WriteToCallback_transposed)
qed

lemma concat_map_concat:
  "concat (map f (concat xss)) = concat (map (\<lambda>xs. concat (map f xs)) xss)"
  by (induction xss) simp_all

lemma CB_ProcessRow_transposed:
  assumes inv: "stage_invariant st" and x: "xextra < 2 ^ 63"
  shows "CB_ProcessRow fe kSmallAlpha (st\<lparr>transpose_cb := True\<rparr>) input_rows xextra xsize xpos
           ypos thread_id =
         concat (map (transposed_calls (num_channels_cb st))
                   (CB_ProcessRow fe kSmallAlpha (st\<lparr>transpose_cb := False\<rparr>) input_rows xextra
                      xsize xpos ypos thread_id))"
proof (cases "ypos < height_cb st")
  case False
  then show ?thesis by (simp add: CB_ProcessRow_def)
next
  case True
  have inv': "stage_invariant (st\<lparr>transpose_cb := b\<rparr>)" for b
    using inv by (simp add: stage_invariant_def)
  have y': "ypos < height_cb (st\<lparr>transpose_cb := b\<rparr>)" for b using True by simp
  have same: "row_ypos (st\<lparr>transpose_cb := b\<rparr>) ypos = row_ypos st ypos"
    "row_limit (st\<lparr>transpose_cb := b\<rparr>) xextra xsize xpos = row_limit st xextra xsize xpos"
    "batch_pixels (st\<lparr>transpose_cb := b\<rparr>) input_rows l z = batch_pixels st input_rows l z"
    for b l z
    by (simp_all add: row_ypos_def row_limit_def batch_pixels_def source_pixel_def
        source_sample_def)
  show ?thesis
    unfolding CB_ProcessRow_closed [OF inv' y' x] same
    by (simp add: deliver_pixels_transposed concat_map_concat comp_def)
qed

lemma num_batches_less:
  "b < num_batches limit x0 \<Longrightarrow> x0 + 1024 * int b < limit"
  unfolding num_batches_def by (simp add: nat_less_iff)

lemma length_batch_pixels: "length (batch_pixels st input_rows limit x0) = batch_len limit x0"
  by (simp add: batch_pixels_def)

lemma deliver_pixels_plain:
  assumes "\<not> transpose_cb st"
  shows "\<exists>out. deliver_pixels fe kSmallAlpha st thread_id xpos ypos x0 px =
           [\<lparr> call_thread = thread_id, call_x = batch_xstart st xpos x0 (length px),
              call_y = ypos, call_num_pixels = length px, call_pixels = out \<rparr>]"
proof -
  define px2 where "px2 =
    (let px1 = (if has_alpha_cb st \<and> want_alpha_cb st \<and> unpremul_alpha_cb st
                 then map (unpremultiply_pixel kSmallAlpha (num_color_cb st)) px else px)
     in if flip_x_cb st then rev px1 else px1)"
  obtain out where out: "convert_pixels fe (data_type_cb st) (swap_endianness_cb st) (concat px2)
      = Some out"
    using convert_pixels_Some by blast
  have d: "deliver_pixels fe kSmallAlpha st thread_id xpos ypos x0 px =
      (case convert_pixels fe (data_type_cb st) (swap_endianness_cb st) (concat px2) of
         Some output \<Rightarrow> WriteToCallback st thread_id ypos
           (batch_xstart st xpos x0 (length px)) (length px) output
       | None \<Rightarrow> [])"
    unfolding deliver_pixels_def px2_def Let_def by simp
  show ?thesis unfolding d out using assms by (simp add: WriteToCallback_def)
qed

lemma CB_ProcessRow_plain:
  assumes inv: "stage_invariant st" and y: "ypos < height_cb st" and x: "xextra < 2 ^ 63"
    and nt: "\<not> transpose_cb st"
  shows "\<exists>outs. CB_ProcessRow fe kSmallAlpha st input_rows xextra xsize xpos ypos thread_id =
           map (\<lambda>b. \<lparr> call_thread = thread_id,
                      call_x = batch_xstart st xpos (- int xextra + 1024 * int b)
                                 (batch_len (row_limit st xextra xsize xpos)
                                    (- int xextra + 1024 * int b)),
                      call_y = row_ypos st ypos,
                      call_num_pixels = batch_len (row_limit st xextra xsize xpos)
                                          (- int xextra + 1024 * int b),
                      call_pixels = outs b \<rparr>)
             [0..<num_batches (row_limit st xextra xsize xpos) (- int xextra)]"
proof -
  define limit where "limit = row_limit st xextra xsize xpos"
  have "\<forall>b. \<exists>out. deliver_pixels fe kSmallAlpha st thread_id xpos (row_ypos st ypos)
        (- int xextra + 1024 * int b) (batch_pixels st input_rows limit (- int xextra + 1024 * int b)) =
      [\<lparr> call_thread = thread_id,
         call_x = batch_xstart st xpos (- int xextra + 1024 * int b)
                    (batch_len limit (- int xextra + 1024 * int b)),
         call_y = row_ypos st ypos,
         call_num_pixels = batch_len limit (- int xextra + 1024 * int b),
         call_pixels = out \<rparr>]"
  proof
    fix b
    show "\<exists>out. deliver_pixels fe kSmallAlpha st thread_id xpos (row_ypos st ypos)
        (- int xextra + 1024 * int b) (batch_pixels st input_rows limit (- int xextra + 1024 * int b)) =
      [\<lparr> call_thread = thread_id,
         call_x = batch_xstart st xpos (- int xextra + 1024 * int b)
                    (batch_len limit (- int xextra + 1024 * int b)),
         call_y = row_ypos st ypos,
         call_num_pixels = batch_len limit (- int xextra + 1024 * int b),
         call_pixels = out \<rparr>]"
      using deliver_pixels_plain [OF nt, of fe kSmallAlpha thread_id xpos "row_ypos st ypos"
          "- int xextra + 1024 * int b"
          "batch_pixels st input_rows limit (- int xextra + 1024 * int b)"]
      unfolding length_batch_pixels .
  qed
  then obtain outs where outs: "\<And>b. deliver_pixels fe kSmallAlpha st thread_id xpos
        (row_ypos st ypos) (- int xextra + 1024 * int b)
        (batch_pixels st input_rows limit (- int xextra + 1024 * int b)) =
      [\<lparr> call_thread = thread_id,
         call_x = batch_xstart st xpos (- int xextra + 1024 * int b)
                    (batch_len limit (- int xextra + 1024 * int b)),
         call_y = row_ypos st ypos,
         call_num_pixels = batch_len limit (- int xextra + 1024 * int b),
         call_pixels = outs b \<rparr>]"
    by metis
  have c: "concat (map (\<lambda>b. [f b]) bs) = map f bs" for f :: "nat \<Rightarrow> run_call" and bs
    by (induction bs) simp_all
  show ?thesis
    unfolding CB_ProcessRow_closed [OF inv y x] limit_def [symmetric] outs c
    by blast
qed

lemma batch_len_in_loop:
  assumes "b < num_batches limit x0"
  shows "1 \<le> batch_len limit (x0 + 1024 * int b)"
    and "batch_len limit (x0 + 1024 * int b) \<le> 1024"
  using num_batches_less [OF assms]
  by (auto simp: batch_len_def kMaxPixelsPerCall_def)

lemma transposed_calls_props:
  "c \<in> set (transposed_calls nc cl) \<Longrightarrow> call_num_pixels c = 1 \<and> call_x c = call_y cl"
  by (auto simp: transposed_calls_def)

subsection \<open>C4: one invocation per batch, or one per pixel under a transpose\<close>

text \<open>
  Claim C4. The invocations of a row call with a transpose are those of the same call
  without the transpose, each batch invocation of \<open>xlen\<close> pixels replaced by \<open>xlen\<close>
  invocations of one pixel each, with the x and y arguments exchanged. Without a
  transpose the call makes one invocation per batch, each of at least one and at most
  1024 pixels; with a transpose every invocation delivers exactly one pixel.
\<close>
theorem callback_invocations:
  assumes inv: "stage_invariant st" and x: "xextra < 2 ^ 63"
  shows "CB_ProcessRow fe kSmallAlpha (st\<lparr>transpose_cb := True\<rparr>) input_rows xextra xsize xpos
           ypos thread_id =
         concat (map (transposed_calls (num_channels_cb st))
                   (CB_ProcessRow fe kSmallAlpha (st\<lparr>transpose_cb := False\<rparr>) input_rows xextra
                      xsize xpos ypos thread_id)) \<and>
         (\<not> transpose_cb st \<and> ypos < height_cb st \<longrightarrow>
            length (CB_ProcessRow fe kSmallAlpha st input_rows xextra xsize xpos ypos thread_id) =
            num_batches (row_limit st xextra xsize xpos) (- int xextra)) \<and>
         (\<not> transpose_cb st \<longrightarrow>
            (\<forall>cl \<in> set (CB_ProcessRow fe kSmallAlpha st input_rows xextra xsize xpos ypos
                           thread_id).
               1 \<le> call_num_pixels cl \<and> call_num_pixels cl \<le> 1024 \<and>
               call_y cl = row_ypos st ypos)) \<and>
         (transpose_cb st \<longrightarrow>
            (\<forall>cl \<in> set (CB_ProcessRow fe kSmallAlpha st input_rows xextra xsize xpos ypos
                           thread_id).
               call_num_pixels cl = 1 \<and> call_x cl = row_ypos st ypos))"
proof (intro conjI impI ballI)
  show "CB_ProcessRow fe kSmallAlpha (st\<lparr>transpose_cb := True\<rparr>) input_rows xextra xsize xpos
           ypos thread_id =
         concat (map (transposed_calls (num_channels_cb st))
                   (CB_ProcessRow fe kSmallAlpha (st\<lparr>transpose_cb := False\<rparr>) input_rows xextra
                      xsize xpos ypos thread_id))"
    using inv x by (rule CB_ProcessRow_transposed)
next
  assume "\<not> transpose_cb st \<and> ypos < height_cb st"
  then show "length (CB_ProcessRow fe kSmallAlpha st input_rows xextra xsize xpos ypos thread_id)
      = num_batches (row_limit st xextra xsize xpos) (- int xextra)"
    using CB_ProcessRow_plain [OF inv _ x, of ypos fe kSmallAlpha input_rows xsize xpos thread_id]
    by auto
next
  fix cl
  assume nt: "\<not> transpose_cb st"
    and cl: "cl \<in> set (CB_ProcessRow fe kSmallAlpha st input_rows xextra xsize xpos ypos thread_id)"
  have y: "ypos < height_cb st"
    using cl by (cases "ypos < height_cb st") (simp_all add: CB_ProcessRow_def)
  from CB_ProcessRow_plain [OF inv y x nt, of fe kSmallAlpha input_rows xsize xpos thread_id] cl
  obtain b where b: "b < num_batches (row_limit st xextra xsize xpos) (- int xextra)"
    and n: "call_num_pixels cl =
        batch_len (row_limit st xextra xsize xpos) (- int xextra + 1024 * int b)"
    and cy: "call_y cl = row_ypos st ypos"
    by auto
  show "1 \<le> call_num_pixels cl" "call_num_pixels cl \<le> 1024" "call_y cl = row_ypos st ypos"
    using batch_len_in_loop [OF b] n cy by simp_all
next
  fix cl
  assume t: "transpose_cb st"
    and cl: "cl \<in> set (CB_ProcessRow fe kSmallAlpha st input_rows xextra xsize xpos ypos thread_id)"
  have y: "ypos < height_cb st"
    using cl by (cases "ypos < height_cb st") (simp_all add: CB_ProcessRow_def)
  have st: "st\<lparr>transpose_cb := True\<rparr> = st" using t by simp
  have inv': "stage_invariant (st\<lparr>transpose_cb := False\<rparr>)"
    using inv by (simp add: stage_invariant_def)
  from cl CB_ProcessRow_transposed [OF inv x, of fe kSmallAlpha input_rows xsize xpos ypos thread_id]
  obtain cl' where cl': "cl' \<in> set (CB_ProcessRow fe kSmallAlpha (st\<lparr>transpose_cb := False\<rparr>)
      input_rows xextra xsize xpos ypos thread_id)" and c: "cl \<in> set (transposed_calls (num_channels_cb st) cl')"
    unfolding st by auto
  have "call_y cl' = row_ypos st ypos"
    using CB_ProcessRow_plain [OF inv' _ x, of ypos fe kSmallAlpha input_rows xsize xpos thread_id]
      cl' y by (auto simp: row_ypos_def)
  with transposed_calls_props [OF c]
  show "call_num_pixels cl = 1" "call_x cl = row_ypos st ypos" by simp_all
qed


lemma stage_fields:
  fixes cb w h nc ha un ac sw ori dt
  defines "st \<equiv> GetWriteToPixelCallbackStage cb w h nc ha un ac sw ori dt"
  shows "width_cb st = w" "height_cb st = h" "num_channels_cb st = nc"
    "num_color_cb st = (if nc < 3 then 1 else 3)" "want_alpha_cb st = (nc = 2 \<or> nc = 4)"
    "has_alpha_cb st = ha" "unpremul_alpha_cb st = un" "alpha_c_cb st = ac"
    "swap_endianness_cb st = sw" "flip_x_cb st = ShouldFlipX ori" "flip_y_cb st = ShouldFlipY ori"
    "transpose_cb st = ShouldTranspose ori" "data_type_cb st = dt"
  by (simp_all add: st_def GetWriteToPixelCallbackStage_def)

lemma wide_sink_invariant: "stage_invariant (wide_sink undo_orientation)"
  unfolding wide_sink_def by (rule stage_invariant_new) simp

theorem callback_invocations_witness:
  "stage_invariant (wide_sink kIdentity) \<and> (0::nat) < 2 ^ 63 \<and>
   CB_ProcessRow demo_target (Finite (1 / 1024)) ((wide_sink kIdentity)\<lparr>transpose_cb := True\<rparr>)
     demo_rows 0 2500 0 1 0 =
   concat (map (transposed_calls 1)
             (CB_ProcessRow demo_target (Finite (1 / 1024)) ((wide_sink kIdentity)\<lparr>transpose_cb := False\<rparr>)
                demo_rows 0 2500 0 1 0)) \<and>
   length (CB_ProcessRow demo_target (Finite (1 / 1024)) (wide_sink kIdentity) demo_rows 0 2500 0 1 0) = 3 \<and>
   list_all (\<lambda>cl. 1 \<le> call_num_pixels cl \<and> call_num_pixels cl \<le> 1024 \<and> call_y cl = 1)
     (CB_ProcessRow demo_target (Finite (1 / 1024)) (wide_sink kIdentity) demo_rows 0 2500 0 1 0) \<and>
   list_all (\<lambda>cl. call_num_pixels cl = 1 \<and> call_x cl = 1)
     (CB_ProcessRow demo_target (Finite (1 / 1024)) (wide_sink kTranspose) demo_rows 0 2500 0 1 0)"
proof -
  have x: "(0::nat) < 2 ^ 63" by simp
  have f: "\<not> transpose_cb (wide_sink kIdentity)" "transpose_cb (wide_sink kTranspose)"
    "height_cb (wide_sink kIdentity) = 4" "num_channels_cb (wide_sink kIdentity) = 1"
    "\<And>y. row_ypos (wide_sink kIdentity) y = y" "\<And>y. row_ypos (wide_sink kTranspose) y = y"
    "num_batches (row_limit (wide_sink kIdentity) 0 2500 0) 0 = 3"
    by (simp_all add: wide_sink_def stage_fields ShouldTranspose_def ShouldFlipY_def
        row_ypos_def row_limit_def num_batches_def to_size_t_def to_ssize_t_def)
  show ?thesis
    using callback_invocations [where st = "wide_sink kIdentity" and xextra = 0
        and fe = demo_target and kSmallAlpha = "Finite (1 / 1024)" and input_rows = demo_rows
        and xsize = 2500 and xpos = 0 and ypos = 1 and thread_id = 0, OF wide_sink_invariant x]
      callback_invocations [where st = "wide_sink kTranspose" and xextra = 0
        and fe = demo_target and kSmallAlpha = "Finite (1 / 1024)" and input_rows = demo_rows
        and xsize = 2500 and xpos = 0 and ypos = 1 and thread_id = 0, OF wide_sink_invariant x]
    by (simp add: f wide_sink_invariant list_all_iff)
qed

lemma concat_singletons: "concat (map (\<lambda>i. [f i]) xs) = map f xs"
  by (induction xs) simp_all

lemma deliver_pixels_columns:
  "concat (map (call_columns st) (deliver_pixels fe kSmallAlpha st thread_id xpos ypos x0 px)) =
   [batch_xstart st xpos x0 (length px)..<batch_xstart st xpos x0 (length px) + length px]"
proof -
  define px2 where "px2 =
    (let px1 = (if has_alpha_cb st \<and> want_alpha_cb st \<and> unpremul_alpha_cb st
                 then map (unpremultiply_pixel kSmallAlpha (num_color_cb st)) px else px)
     in if flip_x_cb st then rev px1 else px1)"
  obtain out where out: "convert_pixels fe (data_type_cb st) (swap_endianness_cb st) (concat px2)
      = Some out"
    using convert_pixels_Some by blast
  have d: "deliver_pixels fe kSmallAlpha st thread_id xpos ypos x0 px =
      (case convert_pixels fe (data_type_cb st) (swap_endianness_cb st) (concat px2) of
         Some output \<Rightarrow> WriteToCallback st thread_id ypos
           (batch_xstart st xpos x0 (length px)) (length px) output
       | None \<Rightarrow> [])"
    unfolding deliver_pixels_def px2_def Let_def by simp
  show ?thesis
  proof (cases "transpose_cb st")
    case True
    have "map (\<lambda>i. X + i) [0..<n] = [X..<X + n]" for X n :: nat
      by (induction n) simp_all
    then show ?thesis
      unfolding d out using True
      by (simp add: WriteToCallback_def call_columns_def comp_def concat_singletons)
  next
    case False
    then show ?thesis unfolding d out by (simp add: WriteToCallback_def call_columns_def)
  qed
qed

lemma CB_ProcessRow_columns:
  assumes inv: "stage_invariant st" and y: "ypos < height_cb st" and x: "xextra < 2 ^ 63"
  shows "concat (map (call_columns st)
           (CB_ProcessRow fe kSmallAlpha st input_rows xextra xsize xpos ypos thread_id)) =
         concat (map (\<lambda>b. [batch_xstart st xpos (- int xextra + 1024 * int b)
                               (batch_len (row_limit st xextra xsize xpos)
                                  (- int xextra + 1024 * int b))..<
                             batch_xstart st xpos (- int xextra + 1024 * int b)
                               (batch_len (row_limit st xextra xsize xpos)
                                  (- int xextra + 1024 * int b)) +
                             batch_len (row_limit st xextra xsize xpos)
                               (- int xextra + 1024 * int b)])
                   [0..<num_batches (row_limit st xextra xsize xpos) (- int xextra)])"
  unfolding CB_ProcessRow_closed [OF inv y x] concat_map_concat
  by (simp add: comp_def deliver_pixels_columns length_batch_pixels)

lemma ranges_concat:
  "n \<le> (T + 1023) div 1024 \<Longrightarrow>
   concat (map (\<lambda>b. [A + 1024 * b..<A + 1024 * b + min 1024 (T - 1024 * b)]) [0..<n]) =
   [A..<A + min (1024 * n) T]"
proof (induction n)
  case 0
  then show ?case by simp
next
  case (Suc n)
  then have n: "1024 * n < T" by arith
  then have m: "min (1024 * n) T = 1024 * n" by simp
  have e: "A + 1024 * n + min 1024 (T - 1024 * n) = A + min (1024 * Suc n) T"
    using n by (simp add: min_def) arith
  have "concat (map (\<lambda>b. [A + 1024 * b..<A + 1024 * b + min 1024 (T - 1024 * b)]) [0..<Suc n]) =
      [A..<A + 1024 * n] @ [A + 1024 * n..<A + 1024 * n + min 1024 (T - 1024 * n)]"
    using Suc by (simp add: m)
  also have "\<dots> = [A..<A + 1024 * n + min 1024 (T - 1024 * n)]"
    using upt_add_eq_append [of A "A + 1024 * n" "min 1024 (T - 1024 * n)"] by simp
  finally show ?case unfolding e .
qed

lemma mirror_range:
  assumes "s + l \<le> (W::nat)"
  shows "{W - s - l..<W - s} = (\<lambda>p. W - 1 - p) ` {s..<s + l}"
proof (intro set_eqI iffI)
  fix c assume c: "c \<in> {W - s - l..<W - s}"
  then have "W - 1 - c \<in> {s..<s + l}" "c = W - 1 - (W - 1 - c)" using assms by auto
  then show "c \<in> (\<lambda>p. W - 1 - p) ` {s..<s + l}" by blast
next
  fix c assume "c \<in> (\<lambda>p. W - 1 - p) ` {s..<s + l}"
  then show "c \<in> {W - s - l..<W - s}" using assms by auto
qed

lemma flipped_ranges:
  assumes "A + T \<le> (W::nat)"
  shows "n \<le> (T + 1023) div 1024 \<Longrightarrow>
   set (concat (map (\<lambda>b. [W - (A + 1024 * b) - min 1024 (T - 1024 * b)..<W - (A + 1024 * b)])
                  [0..<n])) =
   (\<lambda>p. W - 1 - p) ` {A..<A + min (1024 * n) T}"
proof (induction n)
  case 0
  then show ?case by simp
next
  case (Suc n)
  then have n: "1024 * n < T" by arith
  then have m: "min (1024 * n) T = 1024 * n" by simp
  define s where "s = A + 1024 * n"
  define l where "l = min 1024 (T - 1024 * n)"
  have sl: "s + l \<le> W" using assms n by (simp add: s_def l_def min_def) arith
  have e: "s + l = A + min (1024 * Suc n) T"
    using n by (simp add: s_def l_def min_def) arith
  have "set (concat (map (\<lambda>b. [W - (A + 1024 * b) - min 1024 (T - 1024 * b)..<W - (A + 1024 * b)])
                  [0..<Suc n])) =
      (\<lambda>p. W - 1 - p) ` {A..<s} \<union> {W - s - l..<W - s}"
    using Suc by (simp add: m s_def l_def)
  also have "{W - s - l..<W - s} = (\<lambda>p. W - 1 - p) ` {s..<s + l}"
    using sl by (rule mirror_range)
  also have "(\<lambda>p. W - 1 - p) ` {A..<s} \<union> (\<lambda>p. W - 1 - p) ` {s..<s + l} =
      (\<lambda>p. W - 1 - p) ` ({A..<s} \<union> {s..<s + l})"
    by (simp add: image_Un)
  also have "{A..<s} \<union> {s..<s + l} = {A..<s + l}"
    by (auto simp: s_def)
  finally show ?case unfolding e .
qed

lemma row_geometry:
  assumes ex: "xextra \<le> xpos" and xw: "xpos \<le> width_cb st" and w: "width_cb st < 2 ^ 63"
    and xs: "xextra + xsize < 2 ^ 63"
  defines "T \<equiv> min (xextra + xsize) (width_cb st - xpos) + xextra"
  defines "A \<equiv> xpos - xextra"
  shows "row_limit st xextra xsize xpos = int (min (xextra + xsize) (width_cb st - xpos))"
    and "num_batches (row_limit st xextra xsize xpos) (- int xextra) = (T + 1023) div 1024"
    and "batch_len (row_limit st xextra xsize xpos) (- int xextra + 1024 * int b) =
           min 1024 (T - 1024 * b)"
    and "1024 * b < T \<Longrightarrow> to_size_t (int xpos + (- int xextra + 1024 * int b)) = A + 1024 * b"
    and "A + T = min (xpos + xsize + xextra) (width_cb st)"
proof -
  have a: "to_size_t (int (width_cb st) - int xpos) = width_cb st - xpos"
    using xw w by (simp add: to_size_t_id of_nat_diff [symmetric] del: of_nat_diff)
  have "int (min (xextra + xsize) (width_cb st - xpos)) < 2 ^ 63" using xs by simp
  then show l: "row_limit st xextra xsize xpos = int (min (xextra + xsize) (width_cb st - xpos))"
    unfolding row_limit_def a by (intro to_ssize_t_id) simp_all
  show "num_batches (row_limit st xextra xsize xpos) (- int xextra) = (T + 1023) div 1024"
    unfolding l num_batches_def T_def
    by (simp add: nat_div_distrib nat_add_distrib flip: of_nat_add)
  show "batch_len (row_limit st xextra xsize xpos) (- int xextra + 1024 * int b) =
           min 1024 (T - 1024 * b)"
  proof -
    define M where "M = min (xextra + xsize) (width_cb st - xpos)"
    have "nat (int M - (- int xextra + 1024 * int b)) = M + xextra - 1024 * b" by arith
    then show ?thesis
      unfolding l batch_len_def T_def kMaxPixelsPerCall_def M_def by simp
  qed
  show "A + T = min (xpos + xsize + xextra) (width_cb st)"
    using ex xw unfolding A_def T_def by arith
  then have "A + T < 2 ^ 63" using w by simp
  then show "1024 * b < T \<Longrightarrow> to_size_t (int xpos + (- int xextra + 1024 * int b)) =
      A + 1024 * b"
    using ex unfolding A_def by (simp add: to_size_t_def nat_add_distrib nat_diff_distrib)
qed

lemma concat_map_cong_upt:
  "(\<And>b. b < n \<Longrightarrow> f b = g b) \<Longrightarrow> concat (map f [0..<n]) = concat (map g [0..<n])"
  by (rule arg_cong [where f = concat]) simp

lemma num_batches_covers:
  "b < (T + 1023) div 1024 \<Longrightarrow> 1024 * b < (T::nat)"
  by arith

lemma columns_plain:
  assumes inv: "stage_invariant st" and y: "ypos < height_cb st"
    and ex: "xextra \<le> xpos" and xw: "xpos \<le> width_cb st" and w: "width_cb st < 2 ^ 63"
    and xs: "xextra + xsize < 2 ^ 63" and nf: "\<not> flip_x_cb st"
  shows "concat (map (call_columns st)
           (CB_ProcessRow fe kSmallAlpha st input_rows xextra xsize xpos ypos thread_id)) =
         [xpos - xextra..<min (xpos + xsize + xextra) (width_cb st)]"
proof -
  define T where "T = min (xextra + xsize) (width_cb st - xpos) + xextra"
  define A where "A = xpos - xextra"
  note g = row_geometry [OF ex xw w xs, folded T_def A_def]
  have x: "xextra < 2 ^ 63" using xs by simp
  have "concat (map (call_columns st)
           (CB_ProcessRow fe kSmallAlpha st input_rows xextra xsize xpos ypos thread_id)) =
      concat (map (\<lambda>b. [A + 1024 * b..<A + 1024 * b + min 1024 (T - 1024 * b)])
                [0..<(T + 1023) div 1024])"
    unfolding CB_ProcessRow_columns [OF inv y x] g(2) g(3)
  proof (rule concat_map_cong_upt)
    fix b assume "b < (T + 1023) div 1024"
    then have "1024 * b < T" by (rule num_batches_covers)
    then have ts: "to_size_t (int xpos + (- int xextra + 1024 * int b)) = A + 1024 * b"
      by (rule g(4))
    show "[batch_xstart st xpos (- int xextra + 1024 * int b) (min 1024 (T - 1024 * b))..<
                batch_xstart st xpos (- int xextra + 1024 * int b) (min 1024 (T - 1024 * b)) +
                min 1024 (T - 1024 * b)] =
               [A + 1024 * b..<A + 1024 * b + min 1024 (T - 1024 * b)]"
      unfolding batch_xstart_def ts using nf by simp
  qed
  also have "\<dots> = [A..<A + min (1024 * ((T + 1023) div 1024)) T]"
    by (rule ranges_concat) simp
  also have "min (1024 * ((T + 1023) div 1024)) T = T" by arith
  finally have "concat (map (call_columns st)
           (CB_ProcessRow fe kSmallAlpha st input_rows xextra xsize xpos ypos thread_id)) =
      [A..<A + T]" .
  then have "concat (map (call_columns st)
           (CB_ProcessRow fe kSmallAlpha st input_rows xextra xsize xpos ypos thread_id)) =
      [A..<min (xpos + xsize + xextra) (width_cb st)]" by (simp only: g(5))
  then show ?thesis by (simp only: A_def)
qed

lemma columns_flipped:
  assumes inv: "stage_invariant st" and y: "ypos < height_cb st"
    and ex: "xextra \<le> xpos" and xw: "xpos \<le> width_cb st" and w: "width_cb st < 2 ^ 63"
    and xs: "xextra + xsize < 2 ^ 63" and fl: "flip_x_cb st"
  shows "set (concat (map (call_columns st)
           (CB_ProcessRow fe kSmallAlpha st input_rows xextra xsize xpos ypos thread_id))) =
         (\<lambda>p. width_cb st - 1 - p) ` {xpos - xextra..<min (xpos + xsize + xextra) (width_cb st)}"
proof -
  define T where "T = min (xextra + xsize) (width_cb st - xpos) + xextra"
  define A where "A = xpos - xextra"
  define W where "W = width_cb st"
  note g = row_geometry [OF ex xw w xs, folded T_def A_def]
  have x: "xextra < 2 ^ 63" using xs by simp
  have AT: "A + T \<le> W" unfolding g(5) W_def by simp
  have "concat (map (call_columns st)
           (CB_ProcessRow fe kSmallAlpha st input_rows xextra xsize xpos ypos thread_id)) =
      concat (map (\<lambda>b. [W - (A + 1024 * b) - min 1024 (T - 1024 * b)..<W - (A + 1024 * b)])
                [0..<(T + 1023) div 1024])"
    unfolding CB_ProcessRow_columns [OF inv y x] g(2) g(3)
  proof (rule concat_map_cong_upt)
    fix b assume "b < (T + 1023) div 1024"
    then have b: "1024 * b < T" by (rule num_batches_covers)
    define s where "s = A + 1024 * b"
    define l where "l = min 1024 (T - 1024 * b)"
    have sl: "s + l \<le> W" using AT b unfolding s_def l_def by arith
    have "int W - int s - int l = int (W - s - l)" using sl by simp
    moreover have "int (W - s - l) < 2 ^ 64" using w by (simp add: W_def)
    ultimately have f: "FlipX_xstart W s l = W - s - l"
      unfolding FlipX_xstart_def by (simp add: to_size_t_id del: of_nat_diff)
    have ts: "to_size_t (int xpos + (- int xextra + 1024 * int b)) = s"
      unfolding s_def using b by (rule g(4))
    have "batch_xstart st xpos (- int xextra + 1024 * int b) l = W - s - l"
      unfolding batch_xstart_def ts using fl f by (simp add: W_def)
    moreover have "W - s - l + l = W - s" using sl by simp
    ultimately show "[batch_xstart st xpos (- int xextra + 1024 * int b)
                        (min 1024 (T - 1024 * b))..<
                batch_xstart st xpos (- int xextra + 1024 * int b) (min 1024 (T - 1024 * b)) +
                min 1024 (T - 1024 * b)] =
               [W - (A + 1024 * b) - min 1024 (T - 1024 * b)..<W - (A + 1024 * b)]"
      by (simp add: s_def l_def)
  qed
  also have "set \<dots> = (\<lambda>p. W - 1 - p) ` {A..<A + min (1024 * ((T + 1023) div 1024)) T}"
    using AT by (rule flipped_ranges) simp
  also have "min (1024 * ((T + 1023) div 1024)) T = T" by arith
  finally have "set (concat (map (call_columns st)
           (CB_ProcessRow fe kSmallAlpha st input_rows xextra xsize xpos ypos thread_id))) =
      (\<lambda>p. W - 1 - p) ` {A..<A + T}" .
  then have "set (concat (map (call_columns st)
           (CB_ProcessRow fe kSmallAlpha st input_rows xextra xsize xpos ypos thread_id))) =
      (\<lambda>p. W - 1 - p) ` {A..<min (xpos + xsize + xextra) (width_cb st)}" by (simp only: g(5))
  then show ?thesis by (simp only: A_def W_def)
qed

subsection \<open>C10: the columns delivered by a row call\<close>

text \<open>
  Claim C10, as amended. For a row call with \<open>ypos < height\<close>, \<open>xextra \<le> xpos \<le> width\<close> and
  sizes below \<open>2 ^ 63\<close>, the pixels delivered cover exactly the columns from
  \<open>xpos - xextra\<close> up to \<open>min (xpos + xsize + xextra) width - 1\<close>: the right border is
  delivered as well, and the span is cut at the configured width. Without a horizontal
  flip the invocations deliver these columns in increasing order; with a flip they
  deliver the mirror images \<open>width - 1 - p\<close> of these columns. No delivered column is
  \<open>width\<close> or more.
\<close>
theorem delivered_columns:
  assumes inv: "stage_invariant st" and y: "ypos < height_cb st"
    and ex: "xextra \<le> xpos" and xw: "xpos \<le> width_cb st" and w: "width_cb st < 2 ^ 63"
    and xs: "xextra + xsize < 2 ^ 63"
  shows "(\<not> flip_x_cb st \<longrightarrow>
            concat (map (call_columns st)
              (CB_ProcessRow fe kSmallAlpha st input_rows xextra xsize xpos ypos thread_id)) =
            [xpos - xextra..<min (xpos + xsize + xextra) (width_cb st)]) \<and>
         (flip_x_cb st \<longrightarrow>
            set (concat (map (call_columns st)
              (CB_ProcessRow fe kSmallAlpha st input_rows xextra xsize xpos ypos thread_id))) =
            (\<lambda>p. width_cb st - 1 - p) `
              {xpos - xextra..<min (xpos + xsize + xextra) (width_cb st)}) \<and>
         (\<forall>col \<in> set (concat (map (call_columns st)
              (CB_ProcessRow fe kSmallAlpha st input_rows xextra xsize xpos ypos thread_id))).
            col < width_cb st)"
proof (intro conjI impI ballI)
  assume "\<not> flip_x_cb st"
  with assms show "concat (map (call_columns st)
              (CB_ProcessRow fe kSmallAlpha st input_rows xextra xsize xpos ypos thread_id)) =
            [xpos - xextra..<min (xpos + xsize + xextra) (width_cb st)]"
    by (rule columns_plain)
next
  assume "flip_x_cb st"
  with assms show "set (concat (map (call_columns st)
              (CB_ProcessRow fe kSmallAlpha st input_rows xextra xsize xpos ypos thread_id))) =
            (\<lambda>p. width_cb st - 1 - p) `
              {xpos - xextra..<min (xpos + xsize + xextra) (width_cb st)}"
    by (rule columns_flipped)
next
  fix col
  assume c: "col \<in> set (concat (map (call_columns st)
              (CB_ProcessRow fe kSmallAlpha st input_rows xextra xsize xpos ypos thread_id)))"
  show "col < width_cb st"
  proof (cases "flip_x_cb st")
    case False
    from c columns_plain [OF assms False, of fe kSmallAlpha input_rows thread_id]
    show ?thesis by simp
  next
    case True
    from c have "col \<in> (\<lambda>p. width_cb st - 1 - p) `
        {xpos - xextra..<min (xpos + xsize + xextra) (width_cb st)}"
      unfolding columns_flipped [OF assms True, of fe kSmallAlpha input_rows thread_id] .
    then obtain p where "col = width_cb st - 1 - p" "p < width_cb st" by auto
    then show ?thesis by simp
  qed
qed

lemma narrow_sink_invariant: "stage_invariant (narrow_sink undo_orientation)"
  unfolding narrow_sink_def by (rule stage_invariant_new) simp

lemma narrow_sink_fields:
  "height_cb (narrow_sink undo_orientation) = 4" "width_cb (narrow_sink undo_orientation) = 10"
  "flip_x_cb (narrow_sink undo_orientation) = ShouldFlipX undo_orientation"
  by (simp_all add: narrow_sink_def stage_fields)

theorem delivered_columns_counterexample:
  "concat (map (call_columns (narrow_sink kIdentity))
     (CB_ProcessRow demo_target (Finite (1 / 1024)) (narrow_sink kIdentity) demo_rows 1 2 1 0 0)) =
   [0, 1, 2, 3] \<and>
   concat (map (call_columns (narrow_sink kIdentity))
     (CB_ProcessRow demo_target (Finite (1 / 1024)) (narrow_sink kIdentity) demo_rows 1 2 1 0 0)) \<noteq>
   [1 - 1..<min (1 + 2) (width_cb (narrow_sink kIdentity))]"
proof -
  have "concat (map (call_columns (narrow_sink kIdentity))
     (CB_ProcessRow demo_target (Finite (1 / 1024)) (narrow_sink kIdentity) demo_rows 1 2 1 0 0)) =
     [1 - 1..<min (1 + 2 + 1) (width_cb (narrow_sink kIdentity))]"
    by (rule columns_plain [OF narrow_sink_invariant])
       (simp_all add: narrow_sink_fields ShouldFlipX_def)
  then show ?thesis by (simp add: narrow_sink_fields upt_rec)
qed

theorem delivered_columns_witness:
  "stage_invariant (narrow_sink kRotate180) \<and>
   concat (map (call_columns (narrow_sink kIdentity))
     (CB_ProcessRow demo_target (Finite (1 / 1024)) (narrow_sink kIdentity) demo_rows 1 20 4 0 0)) =
   [3, 4, 5, 6, 7, 8, 9] \<and>
   set (concat (map (call_columns (narrow_sink kRotate180))
     (CB_ProcessRow demo_target (Finite (1 / 1024)) (narrow_sink kRotate180) demo_rows 1 20 4 0 0))) =
   {0, 1, 2, 3, 4, 5, 6} \<and>
   list_all (\<lambda>col. col < 10)
     (concat (map (call_columns (narrow_sink kRotate180))
        (CB_ProcessRow demo_target (Finite (1 / 1024)) (narrow_sink kRotate180) demo_rows 1 20 4 0 0)))"
proof -
  have h: "0 < height_cb (narrow_sink o1)" "(1::nat) \<le> 4" "4 \<le> width_cb (narrow_sink o1)"
    "width_cb (narrow_sink o1) < 2 ^ 63" "(1::nat) + 20 < 2 ^ 63" for o1
    by (simp_all add: narrow_sink_fields)
  have "{3..<10} = {3, 4, 5, 6, 7, 8, 9::nat}" by auto
  then have i: "(\<lambda>p. 9 - p) ` {3..<10} = {0, 1, 2, 3, 4, 5, 6::nat}"
    by auto
  show ?thesis
    using delivered_columns [OF narrow_sink_invariant h, of kIdentity demo_target "Finite (1 / 1024)"
        demo_rows 0]
      delivered_columns [OF narrow_sink_invariant h, of kRotate180 demo_target "Finite (1 / 1024)"
        demo_rows 0]
    by (simp add: narrow_sink_invariant narrow_sink_fields ShouldFlipX_def list_all_iff upt_rec i)
qed

lemma U8_ProcessRow_nonempty:
  assumes y: "ypos < height_u8 st" and xs: "0 < xsize"
  shows "U8_ProcessRow fe tg upper st input_rows xextra xsize xpos ypos \<noteq> []"
proof -
  define L where "L = Lanes_capped4 tg"
  have L: "0 < L" using Lanes_capped4_cases [of tg] by (auto simp: L_def)
  have "xsize \<le> RoundUpTo xsize L"
    using Lanes_capped4_cases [of tg] unfolding L_def RoundUpTo_def by auto
  with xs have x1: "0 < RoundUpTo xsize (Lanes_capped4 tg)" by (simp add: L_def)
  have n: "0 < min L (xsize - 0)" using xs L by simp
  have "(bp + ((if al then 4 else 3) * 0 + 0), [r, g, b, a] ! 0 ! 0)
      \<in> set (StoreRGBA tg r g b a al (min L (xsize - 0)) ex bp)" for r g b a al ex bp
    using n by (intro StoreRGBA_sup) (simp_all add: L_def)
  then have "StoreRGBA tg r g b a al (min L (xsize - 0)) ex bp \<noteq> []" for r g b a al ex bp
    by (metis empty_iff empty_set)
  then show ?thesis
    using y by (simp add: U8_ProcessRow_def Let_def U8_loop_unfold [OF x1] L_def)
qed

lemma CB_ProcessRow_nonempty:
  assumes inv: "stage_invariant st" and y: "ypos < height_cb st" and x: "xextra < 2 ^ 63"
    and l: "- int xextra < row_limit st xextra xsize xpos"
  shows "CB_ProcessRow fe kSmallAlpha st input_rows xextra xsize xpos ypos thread_id \<noteq> []"
proof
  assume e: "CB_ProcessRow fe kSmallAlpha st input_rows xextra xsize xpos ypos thread_id = []"
  define limit where "limit = row_limit st xextra xsize xpos"
  obtain n where n: "num_batches limit (- int xextra) = Suc n"
    using l num_batches_step [of "- int xextra" limit] by (auto simp: limit_def)
  have b: "1 \<le> batch_len limit (- int xextra)"
    using l by (intro batch_len_bounds(2)) (simp add: limit_def)
  from CB_ProcessRow_columns [OF inv y x, of fe kSmallAlpha input_rows xsize xpos thread_id]
  have "concat (map (\<lambda>b. [batch_xstart st xpos (- int xextra + 1024 * int b)
                               (batch_len limit (- int xextra + 1024 * int b))..<
                             batch_xstart st xpos (- int xextra + 1024 * int b)
                               (batch_len limit (- int xextra + 1024 * int b)) +
                             batch_len limit (- int xextra + 1024 * int b)])
                   [0..<Suc n]) = []"
    unfolding e limit_def [symmetric] n by simp
  then have "batch_len limit (- int xextra) = 0"
    by (auto simp: upt_conv_Cons simp del: upt_Suc)
  with b show False by simp
qed

lemma row_limit_eq:
  assumes xw: "xpos \<le> width_cb st" and w: "width_cb st < 2 ^ 63" and xs: "xextra + xsize < 2 ^ 63"
  shows "row_limit st xextra xsize xpos = int (min (xextra + xsize) (width_cb st - xpos))"
proof -
  have a: "to_size_t (int (width_cb st) - int xpos) = width_cb st - xpos"
    using xw w by (simp add: to_size_t_id of_nat_diff [symmetric] del: of_nat_diff)
  have "int (min (xextra + xsize) (width_cb st - xpos)) < 2 ^ 63" using xs by simp
  then show ?thesis unfolding row_limit_def a by (intro to_ssize_t_id) simp_all
qed

lemma filter_rows: "filter (\<lambda>y. y < 4) [0..<8] = [0, 1, 2, 3::nat]"
  by (simp add: upt_rec)

subsection \<open>C3: rows at or beyond the height are skipped\<close>

text \<open>
  Claim C3. A row call of RawBufferSink or of PixelCallbackSink with \<open>ypos\<close> at or beyond
  the configured height performs no write and no callback invocation, and the output
  buffer is as before. With height 4 and a row that holds at least one pixel, of the
  rows \<open>0, ..., 7\<close> exactly the rows \<open>0, ..., 3\<close> produce output.
\<close>
theorem border_rows_skipped:
  "(height_u8 u \<le> ypos \<longrightarrow>
      U8_ProcessRow fe tg upper u input_rows xextra xsize xpos ypos = [] \<and>
      apply_writes (U8_ProcessRow fe tg upper u input_rows xextra xsize xpos ypos) buf = buf) \<and>
   (height_cb st \<le> ypos \<longrightarrow>
      CB_ProcessRow fe kSmallAlpha st input_rows xextra xsize xpos ypos thread_id = []) \<and>
   (height_u8 u = 4 \<and> 0 < xsize \<longrightarrow>
      filter (\<lambda>y. U8_ProcessRow fe tg upper u input_rows xextra xsize xpos y \<noteq> []) [0..<8] =
      [0, 1, 2, 3]) \<and>
   (height_cb st = 4 \<and> stage_invariant st \<and> 0 < xsize \<and> xpos < width_cb st \<and>
    width_cb st < 2 ^ 63 \<and> xextra + xsize < 2 ^ 63 \<longrightarrow>
      filter (\<lambda>y. CB_ProcessRow fe kSmallAlpha st input_rows xextra xsize xpos y thread_id \<noteq> [])
        [0..<8] = [0, 1, 2, 3])"
proof (intro conjI impI)
  assume "height_u8 u \<le> ypos"
  then show "U8_ProcessRow fe tg upper u input_rows xextra xsize xpos ypos = []"
    by (simp add: U8_ProcessRow_def)
  then show "apply_writes (U8_ProcessRow fe tg upper u input_rows xextra xsize xpos ypos) buf = buf"
    by (simp add: apply_writes_Nil)
next
  assume "height_cb st \<le> ypos"
  then show "CB_ProcessRow fe kSmallAlpha st input_rows xextra xsize xpos ypos thread_id = []"
    by (simp add: CB_ProcessRow_def)
next
  assume a: "height_u8 u = 4 \<and> 0 < xsize"
  have "(U8_ProcessRow fe tg upper u input_rows xextra xsize xpos y \<noteq> []) = (y < 4)" for y
  proof (cases "y < 4")
    case True
    with a show ?thesis by (simp add: U8_ProcessRow_nonempty)
  next
    case False
    with a show ?thesis by (simp add: U8_ProcessRow_def)
  qed
  then show "filter (\<lambda>y. U8_ProcessRow fe tg upper u input_rows xextra xsize xpos y \<noteq> []) [0..<8] =
      [0, 1, 2, 3]"
    by (simp only: filter_rows)
next
  assume a: "height_cb st = 4 \<and> stage_invariant st \<and> 0 < xsize \<and> xpos < width_cb st \<and>
    width_cb st < 2 ^ 63 \<and> xextra + xsize < 2 ^ 63"
  then have "0 < min (xextra + xsize) (width_cb st - xpos)" by simp
  then have "- int xextra < int (min (xextra + xsize) (width_cb st - xpos))" by linarith
  with a have l: "- int xextra < row_limit st xextra xsize xpos"
    by (simp add: row_limit_eq)
  have "(CB_ProcessRow fe kSmallAlpha st input_rows xextra xsize xpos y thread_id \<noteq> []) = (y < 4)"
    for y
  proof (cases "y < 4")
    case True
    with a l show ?thesis by (simp add: CB_ProcessRow_nonempty)
  next
    case False
    with a show ?thesis by (simp add: CB_ProcessRow_def)
  qed
  then show "filter (\<lambda>y. CB_ProcessRow fe kSmallAlpha st input_rows xextra xsize xpos y thread_id
      \<noteq> []) [0..<8] = [0, 1, 2, 3]"
    by (simp only: filter_rows)
qed

theorem border_rows_skipped_witness:
  "U8_ProcessRow demo_target HWY_OTHER (\<lambda>x k i. 0) tall_sink demo_rows 0 8 0 5 = [] \<and>
   apply_writes (U8_ProcessRow demo_target HWY_OTHER (\<lambda>x k i. 0) tall_sink demo_rows 0 8 0 5) (\<lambda>a. 7) =
     (\<lambda>a. 7) \<and>
   CB_ProcessRow demo_target (Finite (1 / 1024)) (narrow_sink kIdentity) demo_rows 0 8 0 5 0 = [] \<and>
   filter (\<lambda>y. U8_ProcessRow demo_target HWY_OTHER (\<lambda>x k i. 0) tall_sink demo_rows 0 8 0 y \<noteq> []) [0..<8] =
     [0, 1, 2, 3] \<and>
   filter (\<lambda>y. CB_ProcessRow demo_target (Finite (1 / 1024)) (narrow_sink kIdentity) demo_rows 0 8 0 y 0
             \<noteq> []) [0..<8] = [0, 1, 2, 3]"
  using border_rows_skipped [where u = tall_sink and ypos = 5 and tg = HWY_OTHER
      and upper = "\<lambda>x k i. 0" and input_rows = demo_rows and xextra = 0 and xsize = 8
      and xpos = 0 and buf = "\<lambda>a. 7" and st = "narrow_sink kIdentity" and fe = demo_target
      and kSmallAlpha = "Finite (1 / 1024)" and thread_id = 0]
  by (simp add: tall_sink_def narrow_sink_fields narrow_sink_invariant apply_writes_Nil)





subsection \<open>C1: unpremultiplication comes first, when the output carries alpha\<close>









subsection \<open>C7: a pixel whose alpha is zero\<close>











end
